theory Spec2Isabelle
  imports Main "HOL-Library.Word" "HOL-Library.Multiset"
begin

section \<open>The photo feed server (src/server.js)\<close>

text \<open>
  The server keeps one in-memory object, \<^verbatim>\<open>feedState\<close>, holding an array of photo
  objects. Requests react to a photo, comment on it, or list a ranked page of the
  feed. The model below follows \<^verbatim>\<open>src/server.js\<close> function by function.

  JavaScript strings are sequences of UTF-16 code units, so a string is a list of
  16-bit words; \<open>lit\<close> embeds an ASCII literal of the source. Numbers that the code
  only counts with (likes, lengths) are natural numbers; request parameters and
  clock readings are integers.
\<close>

subsection \<open>Strings and array slices\<close>

type_synonym jschar = "16 word"
type_synonym jsstring = "jschar list"

definition lit :: "string \<Rightarrow> jsstring" where
  "lit s = map of_char s"

text \<open>
  The class \<^verbatim>\<open>\s\<close> of a JavaScript regular expression: the white space and line
  terminator code points of ECMAScript, all of them single code units.
  \<^verbatim>\<open>String.prototype.trim\<close> strips exactly the same class.
\<close>

definition is_space :: "jschar \<Rightarrow> bool" where
  "is_space c \<longleftrightarrow>
     c = 0x09 \<or> c = 0x0A \<or> c = 0x0B \<or> c = 0x0C \<or> c = 0x0D \<or> c = 0x20 \<or> c = 0xA0 \<or>
     c = 0x1680 \<or> (0x2000 \<le> c \<and> c \<le> 0x200A) \<or> c = 0x2028 \<or> c = 0x2029 \<or>
     c = 0x202F \<or> c = 0x205F \<or> c = 0x3000 \<or> c = 0xFEFF"

text \<open>
  \<^verbatim>\<open>slice(start, end)\<close> of arrays and strings, on integer arguments: a negative index
  counts from the end, both indices are clamped to the length, and an empty range
  gives the empty sequence. \<^verbatim>\<open>slice(start)\<close> runs to the end.
\<close>

definition js_slice :: "int \<Rightarrow> int \<Rightarrow> 'a list \<Rightarrow> 'a list" where
  "js_slice start fin xs =
     (let len = int (length xs);
          k = (if start < 0 then max (len + start) 0 else min start len);
          final = (if fin < 0 then max (len + fin) 0 else min fin len)
      in take (nat (final - k)) (drop (nat k) xs))"

definition js_slice_from :: "int \<Rightarrow> 'a list \<Rightarrow> 'a list" where
  "js_slice_from start xs = js_slice start (int (length xs)) xs"

text \<open>\<^verbatim>\<open>text.replace(/\s+/g, ' ')\<close>: every maximal run of white space becomes one space.\<close>

function replace_spaces :: "jsstring \<Rightarrow> jsstring" where
  "replace_spaces [] = []"
| "replace_spaces (c # cs) =
     (if is_space c then 0x20 # replace_spaces (dropWhile is_space cs)
      else c # replace_spaces cs)"
  by pat_completeness auto
termination
  by (relation "measure length") (auto simp: less_Suc_eq_le length_dropWhile_le)

definition trim :: "jsstring \<Rightarrow> jsstring" where
  "trim s = rev (dropWhile is_space (rev (dropWhile is_space s)))"

definition MAX_COMMENTS_PER_PHOTO :: nat where
  "MAX_COMMENTS_PER_PHOTO = 80"

definition MAX_COMMENT_LENGTH :: int where
  "MAX_COMMENT_LENGTH = 240"

definition DEFAULT_PAGE_SIZE :: int where
  "DEFAULT_PAGE_SIZE = 8"

definition INITIAL_PHOTO_COUNT :: int where
  "INITIAL_PHOTO_COUNT = 18"

definition CAT_URL :: jsstring where
  "CAT_URL = lit ''https://cataas.com/cat/gif''"

definition sanitizeText :: "jsstring \<Rightarrow> jsstring" where
  "sanitizeText t = js_slice 0 MAX_COMMENT_LENGTH (trim (replace_spaces t))"

subsection \<open>Objects, arrays and the world outside\<close>

text \<open>
  Photo objects are shared and mutated in place: \<^verbatim>\<open>getOrCreatePhoto\<close> hands out a
  reference that \<^verbatim>\<open>addReaction\<close> and \<^verbatim>\<open>addComment\<close> write through, and the
  serializer copies a comment array before reversing the copy in place. Both kinds
  of object therefore live in an explicit store: a photo reference is an index into
  \<open>objs\<close>, a comment array reference an index into \<open>arrs\<close>, and allocation
  appends. Nothing is ever freed. \<open>photos\<close> is the array \<^verbatim>\<open>feedState.photos\<close>.

  \<^verbatim>\<open>Date.now()\<close>, \<^verbatim>\<open>Math.random()\<close> and \<^verbatim>\<open>new Date()\<close> read the world outside
  the program. The environment fixes what the k-th such read returns, and \<open>tick\<close>
  counts the reads made so far.
\<close>

record comment =
  id_comment :: jsstring
  text_comment :: jsstring
  photoId_comment :: jsstring
  timestamp :: jsstring

record photo =
  id_photo :: jsstring
  url :: jsstring
  likes :: nat
  dislikes :: nat
  comments :: nat
  updatedAt :: int

record env =
  date_now :: "nat \<Rightarrow> int"
  math_random :: "nat \<Rightarrow> jsstring"
  date_iso :: "nat \<Rightarrow> jsstring"

record state =
  objs :: "photo list"
  arrs :: "comment list list"
  photos :: "nat list"
  tick :: nat

datatype error = EmptyInput | TypeError

text \<open>
  \<open>EmptyInput\<close> is the \<^verbatim>\<open>Error('Comment text is required.')\<close> thrown by
  \<^verbatim>\<open>addComment\<close>; \<open>TypeError\<close> is what JavaScript raises when a property of
  \<^verbatim>\<open>undefined\<close> is read, which happens when \<^verbatim>\<open>feedState.photos[0]\<close> is taken from
  an empty array.
\<close>

text \<open>A number inside a template literal is printed in decimal.\<close>

function dec_nat :: "nat \<Rightarrow> jsstring" where
  "dec_nat n =
     (if n < 10 then [of_nat (48 + n)] else dec_nat (n div 10) @ [of_nat (48 + n mod 10)])"
  by pat_completeness auto
termination
  by (relation "measure id") auto

declare dec_nat.simps [simp del]

definition number_toString :: "int \<Rightarrow> jsstring" where
  "number_toString i = (if i < 0 then 0x2D # dec_nat (nat (- i)) else dec_nat (nat i))"

definition array_push :: "nat \<Rightarrow> comment \<Rightarrow> state \<Rightarrow> state" where
  "array_push a x st = st\<lparr>arrs := (arrs st)[a := arrs st ! a @ [x]]\<rparr>"

definition array_shift :: "nat \<Rightarrow> state \<Rightarrow> state" where
  "array_shift a st = st\<lparr>arrs := (arrs st)[a := tl (arrs st ! a)]\<rparr>"

definition array_copy :: "nat \<Rightarrow> state \<Rightarrow> nat \<times> state" where
  "array_copy a st = (length (arrs st), st\<lparr>arrs := arrs st @ [arrs st ! a]\<rparr>)"

definition array_slice_from :: "int \<Rightarrow> nat \<Rightarrow> state \<Rightarrow> nat \<times> state" where
  "array_slice_from start a st =
     (length (arrs st), st\<lparr>arrs := arrs st @ [js_slice_from start (arrs st ! a)]\<rparr>)"

definition array_reverse :: "nat \<Rightarrow> state \<Rightarrow> nat \<times> state" where
  "array_reverse a st = (a, st\<lparr>arrs := (arrs st)[a := rev (arrs st ! a)]\<rparr>)"

subsection \<open>The item store\<close>

definition createPhoto :: "env \<Rightarrow> state \<Rightarrow> nat \<times> state" where
  "createPhoto e st =
     (let t = tick st;
          p = \<lparr>id_photo = lit ''cat-'' @ number_toString (date_now e t) @ lit ''-''
                           @ js_slice 2 8 (math_random e (t + 1)),
               url = CAT_URL,
               likes = 0,
               dislikes = 0,
               comments = length (arrs st),
               updatedAt = date_now e (t + 2)\<rparr>
      in (length (objs st),
          st\<lparr>objs := objs st @ [p], arrs := arrs st @ [[]], tick := t + 3\<rparr>))"

function ensurePhotos :: "env \<Rightarrow> int \<Rightarrow> state \<Rightarrow> state" where
  "ensurePhotos e minCount st =
     (if int (length (photos st)) < minCount
      then ensurePhotos e minCount
             (let (r, st1) = createPhoto e st in st1\<lparr>photos := photos st1 @ [r]\<rparr>)
      else st)"
  by pat_completeness auto
termination
  by (relation "measure (\<lambda>(e, minCount, st). nat (minCount - int (length (photos st))))")
     (auto simp: createPhoto_def Let_def)

declare ensurePhotos.simps [simp del]

definition empty_state :: state where
  "empty_state = \<lparr>objs = [], arrs = [], photos = [], tick = 0\<rparr>"

text \<open>Loading the module runs \<^verbatim>\<open>ensurePhotos(INITIAL_PHOTO_COUNT)\<close> on the empty store.\<close>

definition boot :: "env \<Rightarrow> state" where
  "boot e = ensurePhotos e INITIAL_PHOTO_COUNT empty_state"

text \<open>
  The argument of \<^verbatim>\<open>getOrCreatePhoto\<close> is a string or \<^verbatim>\<open>undefined\<close> (\<open>None\<close>).
  \<^verbatim>\<open>!photoId\<close> holds for \<^verbatim>\<open>undefined\<close> and for the empty string. The result is a photo
  reference, or \<^verbatim>\<open>undefined\<close> when the array is empty.
\<close>

definition falsy :: "jsstring option \<Rightarrow> bool" where
  "falsy v = (case v of None \<Rightarrow> True | Some s \<Rightarrow> s = [])"

definition getOrCreatePhoto :: "env \<Rightarrow> jsstring option \<Rightarrow> state \<Rightarrow> nat option \<times> state" where
  "getOrCreatePhoto e photoId st =
     (if falsy photoId then (case photos st of [] \<Rightarrow> None | r # _ \<Rightarrow> Some r, st)
      else
        (case find (\<lambda>r. id_photo (objs st ! r) = the photoId) (photos st) of
           Some existing \<Rightarrow> (Some existing, st)
         | None \<Rightarrow>
             (let (r, st1) = createPhoto e st;
                  st2 = st1\<lparr>objs := (objs st1)[r := (objs st1 ! r)\<lparr>id_photo := the photoId\<rparr>]\<rparr>;
                  st3 = st2\<lparr>photos := r # photos st2\<rparr>
              in (Some r, st3))))"

subsection \<open>Reactions and comments\<close>

definition addReaction ::
  "env \<Rightarrow> jsstring \<Rightarrow> jsstring option \<Rightarrow> state \<Rightarrow> (error + nat) \<times> state" where
  "addReaction e action photoId st =
     (case getOrCreatePhoto e photoId st of
        (None, st1) \<Rightarrow> (Inl TypeError, st1)
      | (Some r, st1) \<Rightarrow>
          (let st2 = (if action = lit ''dislike''
                      then st1\<lparr>objs := (objs st1)[r := (objs st1 ! r)\<lparr>dislikes := dislikes (objs st1 ! r) + 1\<rparr>]\<rparr>
                      else st1\<lparr>objs := (objs st1)[r := (objs st1 ! r)\<lparr>likes := likes (objs st1 ! r) + 1\<rparr>]\<rparr>);
               st3 = st2\<lparr>objs := (objs st2)[r := (objs st2 ! r)\<lparr>updatedAt := date_now e (tick st2)\<rparr>],
                        tick := tick st2 + 1\<rparr>
           in (Inr r, st3)))"

text \<open>Lines 105 to 108: push the entry, then drop the oldest one if the array is too long.\<close>

definition push_capped :: "nat \<Rightarrow> comment \<Rightarrow> state \<Rightarrow> state" where
  "push_capped a entry st =
     (let st1 = array_push a entry st
      in if length (arrs st1 ! a) > MAX_COMMENTS_PER_PHOTO then array_shift a st1 else st1)"

definition addComment ::
  "env \<Rightarrow> jsstring \<Rightarrow> jsstring option \<Rightarrow> state \<Rightarrow> (error + nat) \<times> state" where
  "addComment e text photoId st =
     (let cleanText = sanitizeText text
      in if cleanText = [] then (Inl EmptyInput, st)
         else
           (case getOrCreatePhoto e photoId st of
              (None, st1) \<Rightarrow> (Inl TypeError, st1\<lparr>tick := tick st1 + 2\<rparr>)
            | (Some r, st1) \<Rightarrow>
                (let t = tick st1;
                     entry = \<lparr>id_comment = number_toString (date_now e t) @ lit ''-''
                                              @ js_slice_from 2 (math_random e (t + 1)),
                              text_comment = cleanText,
                              photoId_comment = id_photo (objs st1 ! r),
                              timestamp = date_iso e (t + 2)\<rparr>;
                     st2 = push_capped (comments (objs st1 ! r)) entry st1;
                     st3 = st2\<lparr>objs := (objs st2)[r := (objs st2 ! r)\<lparr>updatedAt := date_now e (t + 3)\<rparr>],
                              tick := t + 4\<rparr>
                 in (Inr r, st3))))"

subsection \<open>Totals and the serializer\<close>

record totals =
  likes_t :: nat
  dislikes_t :: nat
  comments_t :: nat

definition computeTotals :: "state \<Rightarrow> nat list \<Rightarrow> totals" where
  "computeTotals st ps =
     foldl (\<lambda>acc r. acc\<lparr>likes_t := likes_t acc + likes (objs st ! r),
                         dislikes_t := dislikes_t acc + dislikes (objs st ! r),
                         comments_t := comments_t acc + length (arrs st ! comments (objs st ! r))\<rparr>)
           \<lparr>likes_t = 0, dislikes_t = 0, comments_t = 0\<rparr> ps"

text \<open>
  The object built by \<^verbatim>\<open>serializePhoto\<close>: the fields of the photo, the activity, and
  a fresh comment array. \<^verbatim>\<open>[...photo.comments]\<close> allocates a copy, \<^verbatim>\<open>slice(-6)\<close>
  allocates the tail of the copy, and \<^verbatim>\<open>reverse()\<close> reverses that last array in
  place and returns it.
\<close>

record view =
  id_v :: jsstring
  url_v :: jsstring
  likes_v :: nat
  dislikes_v :: nat
  comments_v :: nat
  updatedAt_v :: int
  activity_v :: nat

definition serializePhoto :: "nat \<Rightarrow> state \<Rightarrow> view \<times> state" where
  "serializePhoto r st =
     (let p = objs st ! r;
          activity = likes p + dislikes p + length (arrs st ! comments p);
          (c1, st1) = array_copy (comments p) st;
          (c2, st2) = array_slice_from (- 6) c1 st1;
          (c3, st3) = array_reverse c2 st2
      in (\<lparr>id_v = id_photo p, url_v = url p, likes_v = likes p, dislikes_v = dislikes p,
           comments_v = c3, updatedAt_v = updatedAt p, activity_v = activity\<rparr>, st3))"

fun serializeAll :: "nat list \<Rightarrow> state \<Rightarrow> view list \<times> state" where
  "serializeAll [] st = ([], st)"
| "serializeAll (r # rs) st =
     (let (v, st1) = serializePhoto r st;
          (vs, st2) = serializeAll rs st1
      in (v # vs, st2))"

subsection \<open>Ranking and paging\<close>

text \<open>
  The comparison function handed to \<^verbatim>\<open>sort\<close>. A negative result puts \<open>a\<close> first.
\<close>

definition activity :: "state \<Rightarrow> nat \<Rightarrow> nat" where
  "activity st r =
     likes (objs st ! r) + dislikes (objs st ! r) + length (arrs st ! comments (objs st ! r))"

definition feed_cmp :: "state \<Rightarrow> nat \<Rightarrow> nat \<Rightarrow> int" where
  "feed_cmp st a b =
     (let activityA = activity st a;
          activityB = activity st b
      in if activityB = activityA then updatedAt (objs st ! b) - updatedAt (objs st ! a)
         else int activityB - int activityA)"

text \<open>
  \<^verbatim>\<open>Array.prototype.sort\<close> is stable, and with a comparison function that is a
  consistent ordering its result is the one stable sorted arrangement of the array,
  whatever algorithm the engine runs. Insertion from the right computes it: an
  element goes in front of the first later element that it does not follow.
\<close>

fun insert_cmp :: "('a \<Rightarrow> 'a \<Rightarrow> int) \<Rightarrow> 'a \<Rightarrow> 'a list \<Rightarrow> 'a list" where
  "insert_cmp cmp x [] = [x]"
| "insert_cmp cmp x (y # ys) = (if cmp x y \<le> 0 then x # y # ys else y # insert_cmp cmp x ys)"

definition js_sort :: "('a \<Rightarrow> 'a \<Rightarrow> int) \<Rightarrow> 'a list \<Rightarrow> 'a list" where
  "js_sort cmp xs = foldr (insert_cmp cmp) xs []"

record feed =
  totals_f :: totals
  photos_f :: "view list"
  nextCursor :: int

definition getFeed :: "env \<Rightarrow> int option \<Rightarrow> int option \<Rightarrow> state \<Rightarrow> feed \<times> state" where
  "getFeed e cursor_arg limit_arg st =
     (let cursor = (case cursor_arg of None \<Rightarrow> 0 | Some c \<Rightarrow> c);
          limit = (case limit_arg of None \<Rightarrow> DEFAULT_PAGE_SIZE | Some l \<Rightarrow> l);
          st1 = ensurePhotos e (cursor + limit + 2) st;
          ordered = js_sort (feed_cmp st1) (photos st1);
          (vs, st2) = serializeAll (js_slice cursor (cursor + limit) ordered) st1
      in (\<lparr>totals_f = computeTotals st2 ordered, photos_f = vs, nextCursor = cursor + limit\<rparr>,
          st2))"

subsection \<open>Requests\<close>

text \<open>
  The three operations the HTTP layer calls into. A thrown error becomes the
  response; the store keeps whatever the operation had written before throwing.
\<close>

datatype request =
    React jsstring "jsstring option"
  | Comment jsstring "jsstring option"
  | ListFeed "int option" "int option"

fun step :: "env \<Rightarrow> state \<Rightarrow> request \<Rightarrow> state" where
  "step e st (React action photoId) = snd (addReaction e action photoId st)"
| "step e st (Comment text photoId) = snd (addComment e text photoId st)"
| "step e st (ListFeed cursor limit) = snd (getFeed e cursor limit st)"

definition run :: "env \<Rightarrow> request list \<Rightarrow> state" where
  "run e reqs = foldl (step e) (boot e) reqs"

text \<open>
  Every reference held by the store points into it: the photo references in
  \<open>photos\<close> to photo objects, the comment reference of a photo to an array.
\<close>

definition wf :: "state \<Rightarrow> bool" where
  "wf st \<longleftrightarrow> list_all (\<lambda>r. r < length (objs st)) (photos st)
            \<and> list_all (\<lambda>p. comments p < length (arrs st)) (objs st)"

text \<open>No comment array is longer than the cap.\<close>

definition capped :: "state \<Rightarrow> bool" where
  "capped st \<longleftrightarrow> list_all (\<lambda>cs. length cs \<le> MAX_COMMENTS_PER_PHOTO) (arrs st)"

text \<open>
  The lookup inside \<^verbatim>\<open>getOrCreatePhoto\<close>: the first photo of the array that carries
  the identifier. \<open>ids\<close> lists the identifiers in array order.
\<close>

definition resolve :: "state \<Rightarrow> jsstring \<Rightarrow> nat option" where
  "resolve st pid = find (\<lambda>r. id_photo (objs st ! r) = pid) (photos st)"

definition ids :: "state \<Rightarrow> jsstring list" where
  "ids st = map (\<lambda>r. id_photo (objs st ! r)) (photos st)"

text \<open>The identifier \<^verbatim>\<open>createPhoto\<close> builds when it starts at environment read \<open>t\<close>.\<close>

definition createPhoto_id :: "env \<Rightarrow> nat \<Rightarrow> jsstring" where
  "createPhoto_id e t =
     lit ''cat-'' @ number_toString (date_now e t) @ lit ''-'' @ js_slice 2 8 (math_random e (t + 1))"

text \<open>The identifier a request names, if it names one that \<^verbatim>\<open>getOrCreatePhoto\<close> looks up.\<close>

fun request_id :: "request \<Rightarrow> jsstring option" where
  "request_id (React action photoId) = photoId"
| "request_id (Comment text photoId) = photoId"
| "request_id (ListFeed cursor limit) = None"

text \<open>
  The two values the comparison function looks at, and the order the ranking is
  meant to produce: more activity first, and among equal activity the later update
  first.
\<close>

definition rank_key :: "state \<Rightarrow> nat \<Rightarrow> nat \<times> int" where
  "rank_key st r = (activity st r, updatedAt (objs st ! r))"

definition ranked_before :: "state \<Rightarrow> nat \<Rightarrow> nat \<Rightarrow> bool" where
  "ranked_before st a b \<longleftrightarrow>
     activity st a > activity st b
     \<or> (activity st a = activity st b \<and> updatedAt (objs st ! a) \<ge> updatedAt (objs st ! b))"

definition view_before :: "view \<Rightarrow> view \<Rightarrow> bool" where
  "view_before v w \<longleftrightarrow>
     activity_v v > activity_v w
     \<or> (activity_v v = activity_v w \<and> updatedAt_v v \<ge> updatedAt_v w)"

text \<open>
  Every identifier of the store that \<^verbatim>\<open>createPhoto\<close> could build was built from an
  environment read that has already happened.
\<close>

definition generated_earlier :: "env \<Rightarrow> state \<Rightarrow> bool" where
  "generated_earlier e st \<longleftrightarrow> (\<forall>t. createPhoto_id e t \<in> set (ids st) \<longrightarrow> t < tick st)"

text \<open>
  A request is safe for the identifiers if the identifier it names is carried by
  a photo of the store, or is none that \<^verbatim>\<open>createPhoto\<close> builds from the current
  environment read on. A sequence of requests is safe if each one is, in the store
  it meets.
\<close>

definition client_id_safe :: "env \<Rightarrow> state \<Rightarrow> request \<Rightarrow> bool" where
  "client_id_safe e st req \<longleftrightarrow>
     (case request_id req of
        None \<Rightarrow> True
      | Some q \<Rightarrow> q \<in> set (ids st) \<or> (\<forall>t. tick st \<le> t \<longrightarrow> q \<noteq> createPhoto_id e t))"

fun client_ids_safe :: "env \<Rightarrow> state \<Rightarrow> request list \<Rightarrow> bool" where
  "client_ids_safe e st [] = True"
| "client_ids_safe e st (req # reqs) =
     (client_id_safe e st req \<and> client_ids_safe e (step e st req) reqs)"

text \<open>
  Every identifier that \<^verbatim>\<open>createPhoto\<close> builds during a run of \<^verbatim>\<open>ensurePhotos\<close>
  is carried by no photo of the store at the moment the new photo is pushed; the
  same for a request, for a sequence of requests, and for loading the module
  followed by a sequence of requests. Only \<^verbatim>\<open>ensurePhotos\<close> pushes a photo under
  the identifier that \<^verbatim>\<open>createPhoto\<close> built.
\<close>

function ensurePhotos_fresh :: "env \<Rightarrow> int \<Rightarrow> state \<Rightarrow> bool" where
  "ensurePhotos_fresh e minCount st =
     (if int (length (photos st)) < minCount
      then createPhoto_id e (tick st) \<notin> set (ids st)
         \<and> ensurePhotos_fresh e minCount
             (let (r, st1) = createPhoto e st in st1\<lparr>photos := photos st1 @ [r]\<rparr>)
      else True)"
  by pat_completeness auto
termination
  by (relation "measure (\<lambda>(e, minCount, st). nat (minCount - int (length (photos st))))")
     (auto simp: createPhoto_def Let_def)

declare ensurePhotos_fresh.simps [simp del]

fun step_fresh :: "env \<Rightarrow> state \<Rightarrow> request \<Rightarrow> bool" where
  "step_fresh e st (React action photoId) = True"
| "step_fresh e st (Comment text photoId) = True"
| "step_fresh e st (ListFeed cursor limit) =
     ensurePhotos_fresh e ((case cursor of None \<Rightarrow> 0 | Some c \<Rightarrow> c)
        + (case limit of None \<Rightarrow> DEFAULT_PAGE_SIZE | Some l \<Rightarrow> l) + 2) st"

fun steps_fresh :: "env \<Rightarrow> state \<Rightarrow> request list \<Rightarrow> bool" where
  "steps_fresh e st [] = True"
| "steps_fresh e st (req # reqs) = (step_fresh e st req \<and> steps_fresh e (step e st req) reqs)"

definition run_fresh :: "env \<Rightarrow> request list \<Rightarrow> bool" where
  "run_fresh e reqs \<longleftrightarrow>
     ensurePhotos_fresh e INITIAL_PHOTO_COUNT empty_state \<and> steps_fresh e (boot e) reqs"

subsection \<open>Example worlds and stores\<close>

text \<open>
  A clock that advances one millisecond per read, next to a random source stuck on
  one value; and a clock and a random source that both stand still.
\<close>

definition env_ticking :: env where
  "env_ticking = \<lparr>date_now = (\<lambda>k. 1000 + int k),
                   math_random = (\<lambda>k. lit ''0.a3f19c2b''),
                   date_iso = (\<lambda>k. lit ''1970-01-01T00:00:01.000Z'')\<rparr>"

definition env_frozen :: env where
  "env_frozen = \<lparr>date_now = (\<lambda>k. 1000),
                  math_random = (\<lambda>k. lit ''0.a3f19c2b''),
                  date_iso = (\<lambda>k. lit ''1970-01-01T00:00:01.000Z'')\<rparr>"

definition two_photos :: state where
  "two_photos = ensurePhotos env_ticking 2 empty_state"

text \<open>A store whose first photo has a full comment array.\<close>

definition full_ledger :: state where
  "full_ledger = two_photos\<lparr>arrs := [replicate 80 \<lparr>id_comment = lit ''1000-a3f19c2b'',
                                                   text_comment = lit ''hi'',
                                                   photoId_comment = lit ''cat-1000-a3f19c'',
                                                   timestamp = lit ''1970-01-01T00:00:01.000Z''\<rparr>,
                                     []]\<rparr>"

text \<open>
  The store of two photos after a like for a new photo \<^verbatim>\<open>b\<close> and then a like for
  a new photo \<^verbatim>\<open>a\<close>.
\<close>

definition ranked_example :: state where
  "ranked_example =
     step env_ticking (step env_ticking two_photos (React (lit ''like'') (Some (lit ''b''))))
       (React (lit ''like'') (Some (lit ''a'')))"

section \<open>Properties\<close>

subsection \<open>Text normalisation\<close>

lemma js_slice_take: "0 \<le> n \<Longrightarrow> js_slice 0 n xs = take (nat n) xs"
  by (auto simp: js_slice_def Let_def min_def)

lemma list_all_dropWhile: "list_all P (dropWhile P xs) \<longleftrightarrow> list_all P xs"
  by (induction xs) auto

lemma trim_Nil_iff: "trim s = [] \<longleftrightarrow> list_all is_space s"
proof -
  have "trim s = [] \<longleftrightarrow> list_all is_space (dropWhile is_space s)"
    by (simp add: trim_def list_all_iff)
  then show ?thesis by (simp add: list_all_dropWhile)
qed

lemma is_space_0x20: "is_space 0x20"
  by (simp add: is_space_def)

lemma replace_spaces_all: "list_all is_space (replace_spaces t) \<longleftrightarrow> list_all is_space t"
proof (induction t rule: replace_spaces.induct)
  case 1
  show ?case by simp
next
  case (2 c cs)
  show ?case
  proof (cases "is_space c")
    case True
    with 2 show ?thesis by (simp add: is_space_0x20 list_all_dropWhile)
  next
    case False
    with 2 show ?thesis by simp
  qed
qed

lemma sanitizeText_Nil_iff: "sanitizeText t = [] \<longleftrightarrow> list_all is_space t"
  by (simp add: sanitizeText_def MAX_COMMENT_LENGTH_def js_slice_take trim_Nil_iff replace_spaces_all)

lemma replace_spaces_hd:
  "t \<noteq> [] \<Longrightarrow> \<not> is_space (hd t) \<Longrightarrow> hd (replace_spaces t) = hd t"
  by (cases t) auto

lemma replace_spaces_single:
  "successively (\<lambda>a b. \<not> (is_space a \<and> is_space b)) (replace_spaces t)"
proof (induction t rule: replace_spaces.induct)
  case 1
  show ?case by simp
next
  case (2 c cs)
  show ?case
  proof (cases "is_space c")
    case True
    define u where "u = dropWhile is_space cs"
    have "u = [] \<or> \<not> is_space (hd u)"
      unfolding u_def using hd_dropWhile[of is_space cs] by blast
    then have "replace_spaces u = [] \<or> \<not> is_space (hd (replace_spaces u))"
      by (cases "u = []") (simp_all add: replace_spaces_hd)
    with True "2.IH"(1) show ?thesis by (auto simp: successively_Cons u_def)
  next
    case False
    with "2.IH"(2) show ?thesis by (auto simp: successively_Cons)
  qed
qed

lemma replace_spaces_only_0x20:
  "list_all (\<lambda>c. is_space c \<longrightarrow> c = 0x20) (replace_spaces t)"
  by (induction t rule: replace_spaces.induct) auto

lemma replace_spaces_content:
  "filter (\<lambda>c. \<not> is_space c) (replace_spaces t) = filter (\<lambda>c. \<not> is_space c) t"
proof (induction t rule: replace_spaces.induct)
  case 1
  show ?case by simp
next
  case (2 c cs)
  have "filter (\<lambda>c. \<not> is_space c) (dropWhile is_space cs) = filter (\<lambda>c. \<not> is_space c) cs"
    by (induction cs) auto
  with 2 show ?case by (auto simp: is_space_0x20)
qed

lemma successively_dropWhile: "successively P xs \<Longrightarrow> successively P (dropWhile Q xs)"
  by (induction xs) (auto simp: successively_Cons)

lemma successively_take: "successively P xs \<Longrightarrow> successively P (take n xs)"
  using successively_append_iff[of P "take n xs" "drop n xs"] by simp

lemma trim_single:
  assumes "successively (\<lambda>a b. \<not> (is_space a \<and> is_space b)) s"
  shows "successively (\<lambda>a b. \<not> (is_space a \<and> is_space b)) (trim s)"
proof -
  define P where "P = (\<lambda>a b. \<not> (is_space a \<and> is_space b))"
  have sym: "(\<lambda>x y. P y x) = P" by (auto simp: P_def)
  have "successively P (dropWhile is_space s)"
    using successively_dropWhile[OF assms, of is_space] by (simp add: P_def)
  then have "successively P (rev (dropWhile is_space s))"
    by (simp only: successively_rev sym)
  then have "successively P (dropWhile is_space (rev (dropWhile is_space s)))"
    by (rule successively_dropWhile)
  then have "successively P (rev (dropWhile is_space (rev (dropWhile is_space s))))"
    by (simp only: successively_rev sym)
  then show ?thesis by (simp only: trim_def P_def)
qed

lemma set_trim: "set (trim s) \<subseteq> set s"
proof -
  have "set (trim s) \<subseteq> set (rev (dropWhile is_space s))"
    unfolding trim_def by (auto dest: set_dropWhileD)
  also have "\<dots> \<subseteq> set s" by (auto dest: set_dropWhileD)
  finally show ?thesis .
qed

lemma trim_hd: "trim s \<noteq> [] \<Longrightarrow> \<not> is_space (hd (trim s))"
proof -
  assume ne: "trim s \<noteq> []"
  define u where "u = dropWhile is_space s"
  have "trim s = rev (dropWhile is_space (rev u))" by (simp only: trim_def u_def)
  then have "u = [] \<Longrightarrow> trim s = []" by simp
  with ne have une: "u \<noteq> []" by blast
  then obtain x v where u: "u = x # v" by (cases u) auto
  have nx: "\<not> is_space x" using hd_dropWhile[of is_space s] une u by (simp add: u_def)
  have "trim s = rev (dropWhile is_space (rev v @ [x]))" by (simp add: trim_def u_def[symmetric] u)
  also have "\<dots> = x # rev (dropWhile is_space (rev v))"
    using nx by (simp add: dropWhile_append3)
  finally show ?thesis using nx by simp
qed

lemma sanitizeText_shape:
  "length (sanitizeText t) \<le> 240"
  "successively (\<lambda>a b. \<not> (is_space a \<and> is_space b)) (sanitizeText t)"
  "list_all (\<lambda>c. is_space c \<longrightarrow> c = 0x20) (sanitizeText t)"
  "sanitizeText t \<noteq> [] \<Longrightarrow> \<not> is_space (hd (sanitizeText t))"
proof -
  have s: "sanitizeText t = take 240 (trim (replace_spaces t))"
    by (simp add: sanitizeText_def MAX_COMMENT_LENGTH_def js_slice_take)
  show "length (sanitizeText t) \<le> 240" by (simp add: s)
  show "successively (\<lambda>a b. \<not> (is_space a \<and> is_space b)) (sanitizeText t)"
    unfolding s by (intro successively_take trim_single replace_spaces_single)
  have "set (sanitizeText t) \<subseteq> set (replace_spaces t)"
    unfolding s using set_take_subset[of 240 "trim (replace_spaces t)"] set_trim by fastforce
  then show "list_all (\<lambda>c. is_space c \<longrightarrow> c = 0x20) (sanitizeText t)"
    using replace_spaces_only_0x20[of t] by (auto simp: list_all_iff)
  show "\<not> is_space (hd (sanitizeText t))" if "sanitizeText t \<noteq> []"
  proof -
    from that have "trim (replace_spaces t) \<noteq> []" by (auto simp: s)
    then show ?thesis using trim_hd by (simp add: s)
  qed
qed

subsection \<open>References stay valid\<close>

lemma getOrCreatePhoto_Some:
  "photos st \<noteq> [] \<Longrightarrow> \<exists>r. fst (getOrCreatePhoto e photoId st) = Some r"
  by (auto simp: getOrCreatePhoto_def Let_def split: prod.splits option.splits list.splits)

lemma two_photos_eval: "photos two_photos = [0, 1]"
  by code_simp

lemma createPhoto_sel:
  assumes "createPhoto e st = (r, st1)"
  shows "r = length (objs st)" "length (objs st1) = Suc (length (objs st))"
    "arrs st1 = arrs st @ [[]]" "photos st1 = photos st" "tick st1 = tick st + 3"
    "take (length (objs st)) (objs st1) = objs st"
    "likes (objs st1 ! r) = 0" "dislikes (objs st1 ! r) = 0"
    "comments (objs st1 ! r) = length (arrs st)"
  using assms by (auto simp: createPhoto_def Let_def)

lemma createPhoto_wf:
  assumes "wf st" "createPhoto e st = (r, st1)"
  shows "wf (st1\<lparr>photos := photos st1 @ [r]\<rparr>)" "wf (st1\<lparr>photos := r # photos st1\<rparr>)" "wf st1"
  using assms by (auto simp: createPhoto_def Let_def wf_def list_all_iff less_Suc_eq)

lemma ensurePhotos_wf: "wf st \<Longrightarrow> wf (ensurePhotos e n st)"
proof (induction e n st rule: ensurePhotos.induct)
  case (1 e minCount st)
  show ?case
  proof (cases "int (length (photos st)) < minCount")
    case True
    obtain r st1 where c: "createPhoto e st = (r, st1)" by (cases "createPhoto e st")
    from createPhoto_wf(1)[OF "1.prems" c] "1.IH"[OF True] c True
    show ?thesis by (simp add: ensurePhotos.simps[of e minCount st])
  next
    case False
    with 1 show ?thesis by (simp add: ensurePhotos.simps[of e minCount st])
  qed
qed

lemma find_Some_set: "find P xs = Some x \<Longrightarrow> x \<in> set xs \<and> P x"
  by (induction xs) (auto split: if_splits)

lemma getOrCreatePhoto_wf:
  assumes "wf st" "getOrCreatePhoto e photoId st = (ro, st1)"
  shows "wf st1"
  using assms
  by (auto simp: getOrCreatePhoto_def createPhoto_def Let_def wf_def list_all_iff
      less_Suc_eq split: if_splits option.splits list.splits)

lemma getOrCreatePhoto_valid:
  assumes "wf st" "getOrCreatePhoto e photoId st = (Some r, st1)"
  shows "r < length (objs st1)" "r \<in> set (photos st1)"
  using assms
  by (auto simp: getOrCreatePhoto_def createPhoto_def Let_def wf_def list_all_iff
      split: if_splits option.splits list.splits dest: find_Some_set)


lemma list_all_update:
  "list_all P xs \<Longrightarrow> (i < length xs \<Longrightarrow> P x) \<Longrightarrow> list_all P (xs[i := x])"
  by (cases "i < length xs") (auto simp: list_all_iff list_update_beyond dest: set_update_subset_insert[THEN subsetD])

lemma addReaction_wf:
  assumes "wf st" "addReaction e action photoId st = (res, st')"
  shows "wf st'"
proof -
  obtain ro st1 where g: "getOrCreatePhoto e photoId st = (ro, st1)"
    by (cases "getOrCreatePhoto e photoId st")
  have w1: "wf st1" by (rule getOrCreatePhoto_wf[OF assms(1) g])
  show ?thesis
  proof (cases ro)
    case None
    with assms(2) g w1 show ?thesis by (simp add: addReaction_def)
  next
    case (Some r)
    have c: "r < length (objs st1) \<Longrightarrow> comments (objs st1 ! r) < length (arrs st1)"
      using w1 by (simp add: wf_def list_all_iff)
    from Some assms(2) g w1 c show ?thesis
      by (auto simp: addReaction_def Let_def wf_def intro!: list_all_update split: if_splits)
  qed
qed

lemma push_capped_sel:
  "objs (push_capped a x st) = objs st" "photos (push_capped a x st) = photos st"
  "tick (push_capped a x st) = tick st" "length (arrs (push_capped a x st)) = length (arrs st)"
  by (simp_all add: push_capped_def array_push_def array_shift_def Let_def)

lemma addComment_wf:
  assumes "wf st" "addComment e text photoId st = (res, st')"
  shows "wf st'"
proof (cases "sanitizeText text = []")
  case True
  with assms show ?thesis by (simp add: addComment_def)
next
  case False
  obtain ro st1 where g: "getOrCreatePhoto e photoId st = (ro, st1)"
    by (cases "getOrCreatePhoto e photoId st")
  have w1: "wf st1" by (rule getOrCreatePhoto_wf[OF assms(1) g])
  show ?thesis
  proof (cases ro)
    case None
    with assms(2) g w1 False show ?thesis by (auto simp: addComment_def wf_def)
  next
    case (Some r)
    have c: "r < length (objs st1) \<Longrightarrow> comments (objs st1 ! r) < length (arrs st1)"
      using w1 by (simp add: wf_def list_all_iff)
    from Some assms(2) g w1 False c show ?thesis
      by (auto simp: addComment_def Let_def wf_def push_capped_sel intro!: list_all_update)
  qed
qed

lemma serializePhoto_frame:
  assumes "serializePhoto r st = (v, st')"
  shows "objs st' = objs st" "photos st' = photos st" "tick st' = tick st"
    "length (arrs st') = length (arrs st) + 2"
    "take (length (arrs st)) (arrs st') = arrs st"
  using assms
  by (auto simp: serializePhoto_def array_copy_def array_slice_from_def array_reverse_def Let_def)

lemma serializeAll_frame:
  assumes "serializeAll rs st = (vs, st')"
  shows "objs st' = objs st \<and> photos st' = photos st \<and> tick st' = tick st
    \<and> length (arrs st') = length (arrs st) + 2 * length rs
    \<and> take (length (arrs st)) (arrs st') = arrs st \<and> length vs = length rs"
  using assms
proof (induction rs arbitrary: st vs st')
  case Nil
  then show ?case by simp
next
  case (Cons r rs)
  obtain v st1 where s1: "serializePhoto r st = (v, st1)" by (cases "serializePhoto r st")
  obtain vs2 st2 where s2: "serializeAll rs st1 = (vs2, st2)" by (cases "serializeAll rs st1")
  from Cons.prems s1 s2 have eq: "vs = v # vs2" "st' = st2" by simp_all
  note f1 = serializePhoto_frame[OF s1]
  note f2 = Cons.IH[OF s2]
  have "take (length (arrs st)) (arrs st2) = take (length (arrs st)) (take (length (arrs st1)) (arrs st2))"
    using f1(4) by (simp add: min_def)
  also have "\<dots> = arrs st" using f2 f1(5) by simp
  finally show ?case using f1 f2 eq by simp
qed

lemma wf_frame:
  assumes "wf st" "objs st' = objs st" "photos st' = photos st" "length (arrs st) \<le> length (arrs st')"
  shows "wf st'"
  using assms by (auto simp: wf_def list_all_iff)

lemma getFeed_wf:
  assumes "wf st" "getFeed e c l st = (res, st')"
  shows "wf st'"
proof -
  define cursor where "cursor = (case c of None \<Rightarrow> 0 | Some c \<Rightarrow> c)"
  define limit where "limit = (case l of None \<Rightarrow> DEFAULT_PAGE_SIZE | Some l \<Rightarrow> l)"
  define st1 where "st1 = ensurePhotos e (cursor + limit + 2) st"
  define ordered where "ordered = js_sort (feed_cmp st1) (photos st1)"
  obtain vs st2 where s: "serializeAll (js_slice cursor (cursor + limit) ordered) st1 = (vs, st2)"
    by (cases "serializeAll (js_slice cursor (cursor + limit) ordered) st1")
  have "st' = st2" using assms(2) s
    by (simp add: getFeed_def Let_def cursor_def limit_def st1_def ordered_def)
  moreover have "wf st1" unfolding st1_def by (rule ensurePhotos_wf[OF assms(1)])
  ultimately show ?thesis using serializeAll_frame[OF s] by (auto intro: wf_frame)
qed

lemma step_wf: "wf st \<Longrightarrow> wf (step e st req)"
proof (cases req)
  case (React a p)
  assume "wf st"
  then show ?thesis using React addReaction_wf[OF _ surjective_pairing] by simp
next
  case (Comment t p)
  assume "wf st"
  then show ?thesis using Comment addComment_wf[OF _ surjective_pairing] by simp
next
  case (ListFeed c l)
  assume "wf st"
  then show ?thesis using ListFeed getFeed_wf[OF _ surjective_pairing] by simp
qed

lemma boot_wf: "wf (boot e)"
  unfolding boot_def by (rule ensurePhotos_wf) (simp add: wf_def empty_state_def)

lemma foldl_step_wf: "wf st \<Longrightarrow> wf (foldl (step e) st reqs)"
  by (induction reqs arbitrary: st) (simp_all add: step_wf)

lemma run_wf: "wf (run e reqs)"
  unfolding run_def by (rule foldl_step_wf[OF boot_wf])

subsection \<open>Rejecting empty comments\<close>

text \<open>
  Claim C4. \<^verbatim>\<open>addComment\<close> throws its empty-input error exactly when the text
  normalises to the empty string. Normalising replaces each run of white space by
  one space, trims both ends and keeps at most 240 code units; the result is empty
  exactly for a text that is empty or all white space. In the result no two white
  space characters are adjacent, every white space character is a space, the first
  character is none, and the other characters are those of the text in their order
  (up to the cut at 240). The text
  \<^verbatim>\<open>"  hello   world  "\<close> normalises to \<^verbatim>\<open>"hello world"\<close> and, on a store that is
  not empty, is accepted.
\<close>

theorem addComment_EmptyInput_iff:
  "(fst (addComment e text photoId st) = Inl EmptyInput \<longleftrightarrow> sanitizeText text = [])
   \<and> sanitizeText text = take 240 (trim (replace_spaces text))
   \<and> (sanitizeText text = [] \<longleftrightarrow> list_all is_space text)
   \<and> length (sanitizeText text) \<le> 240
   \<and> successively (\<lambda>a b. \<not> (is_space a \<and> is_space b)) (sanitizeText text)
   \<and> list_all (\<lambda>c. is_space c \<longrightarrow> c = 0x20) (sanitizeText text)
   \<and> (sanitizeText text \<noteq> [] \<longrightarrow> \<not> is_space (hd (sanitizeText text)))
   \<and> filter (\<lambda>c. \<not> is_space c) (replace_spaces text) = filter (\<lambda>c. \<not> is_space c) text
   \<and> sanitizeText (lit ''  hello   world  '') = lit ''hello world''
   \<and> (photos st \<noteq> [] \<longrightarrow>
        (\<exists>r. fst (addComment e (lit ''  hello   world  '') photoId st) = Inr r))"
proof -
  have a: "fst (addComment e text photoId st) = Inl EmptyInput \<longleftrightarrow> sanitizeText text = []"
    by (auto simp: addComment_def Let_def split: prod.splits option.splits)
  have b: "sanitizeText text = take 240 (trim (replace_spaces text))"
    by (simp add: sanitizeText_def MAX_COMMENT_LENGTH_def js_slice_take)
  have d: "sanitizeText (lit ''  hello   world  '') = lit ''hello world''"
    by code_simp
  have ne: "sanitizeText (lit ''  hello   world  '') \<noteq> []"
    unfolding d by (simp add: lit_def)
  have f: "\<exists>r. fst (addComment e (lit ''  hello   world  '') photoId st) = Inr r"
    if "photos st \<noteq> []"
  proof -
    from getOrCreatePhoto_Some[OF that, of e photoId]
    obtain r where "fst (getOrCreatePhoto e photoId st) = Some r" ..
    then show ?thesis using ne
      by (auto simp: addComment_def Let_def split: prod.splits option.splits)
  qed
  from a b d f sanitizeText_Nil_iff[of "text"] sanitizeText_shape[of "text"]
    replace_spaces_content[of "text"]
  show ?thesis by blast
qed

theorem addComment_EmptyInput_iff_witness:
  "photos two_photos \<noteq> []
   \<and> (\<exists>r. fst (addComment env_ticking (lit ''  hello   world  '') None two_photos) = Inr r)
   \<and> list_all is_space (lit ''   '')
   \<and> fst (addComment env_ticking (lit ''   '') None two_photos) = Inl EmptyInput"
proof -
  have h: "photos two_photos \<noteq> []" by (simp add: two_photos_eval)
  have s: "list_all is_space (lit ''   '')" by (simp add: lit_def is_space_def)
  from h s addComment_EmptyInput_iff[of env_ticking "lit ''   ''" None two_photos]
  show ?thesis by blast
qed

text \<open>
  Claim C10. When \<^verbatim>\<open>addComment\<close> throws the empty-input error, the store, the
  objects and arrays it refers to and the count of environment reads are all as
  before: the check comes before the photo is looked up, so an unknown identifier
  creates nothing.
\<close>

theorem addComment_EmptyInput_frame:
  "fst (addComment e text photoId st) = Inl EmptyInput \<Longrightarrow>
     addComment e text photoId st = (Inl EmptyInput, st)"
  by (auto simp: addComment_def Let_def split: prod.splits option.splits if_splits)

theorem addComment_EmptyInput_frame_witness:
  "fst (addComment env_ticking (lit ''   '') (Some (lit ''unknown'')) two_photos) = Inl EmptyInput
   \<and> addComment env_ticking (lit ''   '') (Some (lit ''unknown'')) two_photos
       = (Inl EmptyInput, two_photos)
   \<and> resolve two_photos (lit ''unknown'') = None"
proof -
  have h: "fst (addComment env_ticking (lit ''   '') (Some (lit ''unknown'')) two_photos) = Inl EmptyInput"
    by (simp add: addComment_def Let_def sanitizeText_Nil_iff lit_def is_space_def)
  have r: "resolve two_photos (lit ''unknown'') = None" by code_simp
  from h r addComment_EmptyInput_frame[OF h] show ?thesis by blast
qed

subsection \<open>Reactions\<close>

lemma getOrCreatePhoto_fresh:
  assumes "\<not> falsy photoId" "resolve st (the photoId) = None"
    "getOrCreatePhoto e photoId st = (ro, st1)"
  shows "ro = Some (length (objs st))" "photos st1 = length (objs st) # photos st"
    "length (objs st1) = Suc (length (objs st))"
    "take (length (objs st)) (objs st1) = objs st"
    "arrs st1 = arrs st @ [[]]" "tick st1 = tick st + 3"
    "objs st1 ! length (objs st) =
       \<lparr>id_photo = the photoId, url = CAT_URL, likes = 0, dislikes = 0,
        comments = length (arrs st), updatedAt = date_now e (tick st + 2)\<rparr>"
  using assms by (auto simp: getOrCreatePhoto_def resolve_def createPhoto_def Let_def)

lemma two_photos_wf: "wf two_photos"
  unfolding two_photos_def by (rule ensurePhotos_wf) (simp add: wf_def empty_state_def)

text \<open>
  Claim C5. On a store that is not empty, \<^verbatim>\<open>addReaction\<close> never fails. With the kind
  \<^verbatim>\<open>"dislike"\<close> it adds exactly one to the dislike count of the resolved photo and
  leaves its like count alone; with any other kind string it adds exactly one to the
  like count and leaves the dislike count alone. A photo whose counts are both zero
  therefore ends with likes 0 and dislikes 1, or likes 1 and dislikes 0. No other
  photo object changes.
\<close>

theorem addReaction_counts:
  assumes "wf st" and "photos st \<noteq> []"
  shows "\<exists>r st1 st'.
           getOrCreatePhoto e photoId st = (Some r, st1)
         \<and> addReaction e action photoId st = (Inr r, st')
         \<and> (if action = lit ''dislike''
            then dislikes (objs st' ! r) = dislikes (objs st1 ! r) + 1
               \<and> likes (objs st' ! r) = likes (objs st1 ! r)
            else likes (objs st' ! r) = likes (objs st1 ! r) + 1
               \<and> dislikes (objs st' ! r) = dislikes (objs st1 ! r))
         \<and> (likes (objs st1 ! r) = 0 \<and> dislikes (objs st1 ! r) = 0 \<longrightarrow>
              likes (objs st' ! r) = (if action = lit ''dislike'' then 0 else 1)
            \<and> dislikes (objs st' ! r) = (if action = lit ''dislike'' then 1 else 0))
         \<and> (\<forall>r'. r' \<noteq> r \<longrightarrow> objs st' ! r' = objs st1 ! r')
         \<and> length (objs st') = length (objs st1) \<and> arrs st' = arrs st1 \<and> photos st' = photos st1"
proof -
  from getOrCreatePhoto_Some[OF assms(2), of e photoId]
  obtain r st1 where g: "getOrCreatePhoto e photoId st = (Some r, st1)"
    by (cases "getOrCreatePhoto e photoId st") auto
  have v: "r < length (objs st1)" by (rule getOrCreatePhoto_valid(1)[OF assms(1) g])
  obtain st' where a: "addReaction e action photoId st = (Inr r, st')"
    using g by (simp add: addReaction_def Let_def)
  have inc: "if action = lit ''dislike''
            then dislikes (objs st' ! r) = dislikes (objs st1 ! r) + 1
               \<and> likes (objs st' ! r) = likes (objs st1 ! r)
            else likes (objs st' ! r) = likes (objs st1 ! r) + 1
               \<and> dislikes (objs st' ! r) = dislikes (objs st1 ! r)"
    using a g v by (auto simp: addReaction_def Let_def)
  then have fresh: "likes (objs st1 ! r) = 0 \<and> dislikes (objs st1 ! r) = 0 \<longrightarrow>
              likes (objs st' ! r) = (if action = lit ''dislike'' then 0 else 1)
            \<and> dislikes (objs st' ! r) = (if action = lit ''dislike'' then 1 else 0)"
    by (simp split: if_splits)
  have others: "\<forall>r'. r' \<noteq> r \<longrightarrow> objs st' ! r' = objs st1 ! r'"
    using a g by (auto simp: addReaction_def Let_def split: if_splits)
  have rest: "length (objs st') = length (objs st1) \<and> arrs st' = arrs st1 \<and> photos st' = photos st1"
    using a g by (auto simp: addReaction_def Let_def split: if_splits)
  from g a inc fresh others rest show ?thesis by blast
qed

theorem addReaction_counts_witness:
  "wf two_photos \<and> photos two_photos \<noteq> []
   \<and> (\<exists>r st'. addReaction env_ticking (lit ''explode'') None two_photos = (Inr r, st')
         \<and> likes (objs st' ! r) = likes (objs two_photos ! r) + 1
         \<and> dislikes (objs st' ! r) = dislikes (objs two_photos ! r))
   \<and> likes (objs (snd (addReaction env_ticking (lit ''explode'') None two_photos)) ! 0) = 1
   \<and> dislikes (objs (snd (addReaction env_ticking (lit ''explode'') None two_photos)) ! 0) = 0
   \<and> likes (objs (snd (addReaction env_ticking (lit ''dislike'') None two_photos)) ! 0) = 0
   \<and> dislikes (objs (snd (addReaction env_ticking (lit ''dislike'') None two_photos)) ! 0) = 1"
proof -
  have h: "photos two_photos \<noteq> []" by (simp add: two_photos_eval)
  have k: "lit ''explode'' \<noteq> lit ''dislike''" by (simp add: lit_def)
  have g: "getOrCreatePhoto env_ticking None two_photos = (Some 0, two_photos)"
    by (simp add: getOrCreatePhoto_def falsy_def two_photos_eval)
  from addReaction_counts[OF two_photos_wf h, of env_ticking None "lit ''explode''"] k g
  have a: "\<exists>r st'. addReaction env_ticking (lit ''explode'') None two_photos = (Inr r, st')
         \<and> likes (objs st' ! r) = likes (objs two_photos ! r) + 1
         \<and> dislikes (objs st' ! r) = dislikes (objs two_photos ! r)"
    by auto
  have b: "likes (objs (snd (addReaction env_ticking (lit ''explode'') None two_photos)) ! 0) = 1"
    "dislikes (objs (snd (addReaction env_ticking (lit ''explode'') None two_photos)) ! 0) = 0"
    "likes (objs (snd (addReaction env_ticking (lit ''dislike'') None two_photos)) ! 0) = 0"
    "dislikes (objs (snd (addReaction env_ticking (lit ''dislike'') None two_photos)) ! 0) = 1"
    by code_simp+
  from two_photos_wf h a b show ?thesis by blast
qed

subsection \<open>Looking a photo up, or creating it\<close>

text \<open>
  Claim C6 says that an identifier that is not present always makes
  \<^verbatim>\<open>getOrCreatePhoto\<close> create a photo carrying it. The empty string is an
  identifier the request handlers pass on, and \<^verbatim>\<open>!photoId\<close> treats it like a missing
  one: nothing is created, and the first photo, which carries another identifier, is
  returned.
\<close>

theorem getOrCreatePhoto_empty_id_counterexample:
  "resolve two_photos [] = None
   \<and> getOrCreatePhoto env_ticking (Some []) two_photos = (Some 0, two_photos)
   \<and> id_photo (objs two_photos ! 0) \<noteq> []
   \<and> photos two_photos = [0, 1]"
proof -
  have a: "resolve two_photos [] = None" by code_simp
  have b: "getOrCreatePhoto env_ticking (Some []) two_photos = (Some 0, two_photos)"
    by (simp add: getOrCreatePhoto_def falsy_def two_photos_eval)
  have c: "id_photo (objs two_photos ! 0) \<noteq> []" by code_simp
  from a b c two_photos_eval show ?thesis by blast
qed

text \<open>
  Claim C6, amended. On a store that is not empty \<^verbatim>\<open>getOrCreatePhoto\<close> always
  returns a photo. Without an identifier, or with the empty string, it returns the
  first photo of the array and changes nothing. With a non-empty identifier that
  some photo carries it returns the first such photo and changes nothing. With a
  non-empty identifier that no photo carries it allocates a photo with that
  identifier, zero counts, an empty comment array and the current clock reading as
  its last update, puts it at the front of the array and returns it.
\<close>

theorem getOrCreatePhoto_cases:
  assumes "photos st \<noteq> []"
  shows "(\<exists>r st1. getOrCreatePhoto e photoId st = (Some r, st1))
    \<and> (falsy photoId \<longrightarrow> getOrCreatePhoto e photoId st = (Some (hd (photos st)), st))
    \<and> (\<forall>r. \<not> falsy photoId \<and> resolve st (the photoId) = Some r \<longrightarrow>
          getOrCreatePhoto e photoId st = (Some r, st)
        \<and> r \<in> set (photos st) \<and> id_photo (objs st ! r) = the photoId)
    \<and> (\<not> falsy photoId \<and> resolve st (the photoId) = None \<longrightarrow>
          getOrCreatePhoto e photoId st =
            (Some (length (objs st)),
             st\<lparr>objs := objs st @ [\<lparr>id_photo = the photoId, url = CAT_URL, likes = 0,
                                     dislikes = 0, comments = length (arrs st),
                                     updatedAt = date_now e (tick st + 2)\<rparr>],
                arrs := arrs st @ [[]],
                photos := length (objs st) # photos st,
                tick := tick st + 3\<rparr>))"
proof -
  have a: "\<exists>r st1. getOrCreatePhoto e photoId st = (Some r, st1)"
    using getOrCreatePhoto_Some[OF assms, of e photoId]
    by (cases "getOrCreatePhoto e photoId st") auto
  have b: "falsy photoId \<longrightarrow> getOrCreatePhoto e photoId st = (Some (hd (photos st)), st)"
    using assms by (auto simp: getOrCreatePhoto_def split: list.splits)
  have c: "\<forall>r. \<not> falsy photoId \<and> resolve st (the photoId) = Some r \<longrightarrow>
          getOrCreatePhoto e photoId st = (Some r, st)
        \<and> r \<in> set (photos st) \<and> id_photo (objs st ! r) = the photoId"
    by (auto simp: getOrCreatePhoto_def resolve_def dest: find_Some_set)
  have d: "\<not> falsy photoId \<and> resolve st (the photoId) = None \<longrightarrow>
          getOrCreatePhoto e photoId st =
            (Some (length (objs st)),
             st\<lparr>objs := objs st @ [\<lparr>id_photo = the photoId, url = CAT_URL, likes = 0,
                                     dislikes = 0, comments = length (arrs st),
                                     updatedAt = date_now e (tick st + 2)\<rparr>],
                arrs := arrs st @ [[]],
                photos := length (objs st) # photos st,
                tick := tick st + 3\<rparr>)"
    by (auto simp: getOrCreatePhoto_def resolve_def createPhoto_def Let_def)
  from a b c d show ?thesis by blast
qed

theorem getOrCreatePhoto_cases_witness:
  "photos two_photos \<noteq> []
   \<and> \<not> falsy (Some (lit ''unknown'')) \<and> resolve two_photos (lit ''unknown'') = None
   \<and> fst (getOrCreatePhoto env_ticking (Some (lit ''unknown'')) two_photos) = Some 2
   \<and> photos (snd (getOrCreatePhoto env_ticking (Some (lit ''unknown'')) two_photos)) = [2, 0, 1]
   \<and> falsy (Some []) \<and> getOrCreatePhoto env_ticking (Some []) two_photos = (Some 0, two_photos)"
proof -
  have h: "photos two_photos \<noteq> []" by (simp add: two_photos_eval)
  have f: "\<not> falsy (Some (lit ''unknown''))" by (simp add: falsy_def lit_def)
  have f2: "falsy (Some [])" by (simp add: falsy_def)
  have r: "resolve two_photos (lit ''unknown'') = None" by code_simp
  have l: "length (objs two_photos) = 2" by code_simp
  from getOrCreatePhoto_cases[OF h, of env_ticking "Some (lit ''unknown'')"] f r l
  have a: "fst (getOrCreatePhoto env_ticking (Some (lit ''unknown'')) two_photos) = Some 2"
    "photos (snd (getOrCreatePhoto env_ticking (Some (lit ''unknown'')) two_photos)) = [2, 0, 1]"
    by (simp_all add: two_photos_eval)
  from getOrCreatePhoto_cases[OF h, of env_ticking "Some []"] f2
  have b: "getOrCreatePhoto env_ticking (Some []) two_photos = (Some 0, two_photos)"
    by (simp add: two_photos_eval)
  from h f r a f2 b show ?thesis by blast
qed

subsection \<open>The comment cap\<close>

lemma mset_insert_cmp: "mset (insert_cmp cmp x ys) = add_mset x (mset ys)"
  by (induction ys) auto

lemma mset_js_sort: "mset (js_sort cmp xs) = mset xs"
  unfolding js_sort_def by (induction xs) (auto simp: mset_insert_cmp)

lemma set_js_sort: "set (js_sort cmp xs) = set xs"
  using mset_js_sort[of cmp xs] by (metis set_mset_mset)

lemma length_js_sort: "length (js_sort cmp xs) = length xs"
  using mset_js_sort[of cmp xs] by (metis size_mset)

lemma js_slice_take_drop: "\<exists>n k. js_slice start fin xs = take n (drop k xs)"
  unfolding js_slice_def Let_def by blast

lemma set_js_slice: "set (js_slice start fin xs) \<subseteq> set xs"
proof -
  obtain n k where "js_slice start fin xs = take n (drop k xs)"
    using js_slice_take_drop by blast
  then show ?thesis
    using set_take_subset[of n "drop k xs"] set_drop_subset[of k xs] by auto
qed

lemma createPhoto_capped:
  "capped st \<Longrightarrow> createPhoto e st = (r, st1) \<Longrightarrow> capped st1"
  by (auto simp: createPhoto_def Let_def capped_def)

lemma capped_photos_upd: "capped (st\<lparr>photos := ps\<rparr>) = capped st"
  by (simp add: capped_def)

lemma ensurePhotos_capped: "capped st \<Longrightarrow> capped (ensurePhotos e n st)"
proof (induction e n st rule: ensurePhotos.induct)
  case (1 e minCount st)
  show ?case
  proof (cases "int (length (photos st)) < minCount")
    case True
    obtain r st1 where c: "createPhoto e st = (r, st1)" by (cases "createPhoto e st")
    from createPhoto_capped[OF "1.prems" c] "1.IH"[OF True] c True
    show ?thesis by (simp add: ensurePhotos.simps[of e minCount st] capped_photos_upd)
  next
    case False
    with 1 show ?thesis by (simp add: ensurePhotos.simps[of e minCount st])
  qed
qed

lemma getOrCreatePhoto_capped:
  "capped st \<Longrightarrow> getOrCreatePhoto e photoId st = (ro, st1) \<Longrightarrow> capped st1"
  by (auto simp: getOrCreatePhoto_def createPhoto_def Let_def capped_def
      split: if_splits option.splits)

lemma addReaction_capped:
  assumes "capped st" "addReaction e action photoId st = (res, st')"
  shows "capped st'"
proof -
  obtain ro st1 where g: "getOrCreatePhoto e photoId st = (ro, st1)"
    by (cases "getOrCreatePhoto e photoId st")
  have "capped st1" by (rule getOrCreatePhoto_capped[OF assms(1) g])
  then show ?thesis using assms(2) g
    by (cases ro) (auto simp: addReaction_def Let_def capped_def split: if_splits)
qed

lemma push_capped_nth:
  assumes "a < length (arrs st)" "length (arrs st ! a) \<le> MAX_COMMENTS_PER_PHOTO"
  shows "length (arrs (array_push a x st) ! a) = length (arrs st ! a) + 1"
    "arrs (push_capped a x st) ! a =
       (if length (arrs st ! a) = MAX_COMMENTS_PER_PHOTO then tl (arrs st ! a) @ [x]
        else arrs st ! a @ [x])"
    "length (arrs (push_capped a x st) ! a) \<le> MAX_COMMENTS_PER_PHOTO"
proof -
  have ne: "length (arrs st ! a) = 80 \<Longrightarrow> arrs st ! a \<noteq> []" by auto
  show "length (arrs (array_push a x st) ! a) = length (arrs st ! a) + 1"
    using assms by (simp add: array_push_def)
  show "arrs (push_capped a x st) ! a =
       (if length (arrs st ! a) = MAX_COMMENTS_PER_PHOTO then tl (arrs st ! a) @ [x]
        else arrs st ! a @ [x])"
    using assms ne
    by (auto simp: push_capped_def array_push_def array_shift_def Let_def
        MAX_COMMENTS_PER_PHOTO_def)
  then show "length (arrs (push_capped a x st) ! a) \<le> MAX_COMMENTS_PER_PHOTO"
    using assms by (auto simp: MAX_COMMENTS_PER_PHOTO_def)
qed

lemma push_capped_capped:
  assumes "capped st"
  shows "capped (push_capped a x st)"
proof (cases "a < length (arrs st)")
  case True
  have le: "length (arrs st ! a) \<le> MAX_COMMENTS_PER_PHOTO"
    using assms True by (simp add: capped_def list_all_iff)
  have *: "arrs (push_capped a x st) = (arrs st)[a := arrs (push_capped a x st) ! a]"
    using True by (auto simp: push_capped_def array_push_def array_shift_def Let_def)
  show ?thesis
    unfolding capped_def
    by (subst *) (use assms push_capped_nth(3)[OF True le] in \<open>auto simp: capped_def intro: list_all_update\<close>)
next
  case False
  then have "arrs (push_capped a x st) = arrs st"
    by (auto simp: push_capped_def array_push_def array_shift_def Let_def list_update_beyond)
  with assms show ?thesis by (simp add: capped_def)
qed

lemma addComment_capped:
  assumes "capped st" "addComment e text photoId st = (res, st')"
  shows "capped st'"
proof (cases "sanitizeText text = []")
  case True
  with assms show ?thesis by (simp add: addComment_def)
next
  case False
  obtain ro st1 where g: "getOrCreatePhoto e photoId st = (ro, st1)"
    by (cases "getOrCreatePhoto e photoId st")
  have c1: "capped st1" by (rule getOrCreatePhoto_capped[OF assms(1) g])
  show ?thesis
  proof (cases ro)
    case None
    with assms(2) g c1 False show ?thesis by (auto simp: addComment_def capped_def)
  next
    case (Some r)
    define entry where "entry = \<lparr>id_comment = number_toString (date_now e (tick st1)) @ lit ''-''
                                              @ js_slice_from 2 (math_random e (tick st1 + 1)),
                              text_comment = sanitizeText text,
                              photoId_comment = id_photo (objs st1 ! r),
                              timestamp = date_iso e (tick st1 + 2)\<rparr>"
    have "arrs st' = arrs (push_capped (comments (objs st1 ! r)) entry st1)"
      using Some assms(2) g False by (auto simp: addComment_def Let_def entry_def)
    with push_capped_capped[OF c1, of "comments (objs st1 ! r)" entry]
    show ?thesis by (simp add: capped_def)
  qed
qed

lemma js_slice_length: "length (js_slice start fin xs) \<le> length xs"
  by (auto simp: js_slice_def Let_def)

lemma serializePhoto_capped:
  assumes "wf st" "capped st" "r < length (objs st)" "serializePhoto r st = (v, st')"
  shows "capped st'"
proof -
  have a: "comments (objs st ! r) < length (arrs st)"
    using assms(1,3) by (simp add: wf_def list_all_iff)
  then have le: "length (arrs st ! comments (objs st ! r)) \<le> MAX_COMMENTS_PER_PHOTO"
    using assms(2) by (simp add: capped_def list_all_iff)
  have "length (js_slice_from (- 6) (arrs st ! comments (objs st ! r))) \<le> MAX_COMMENTS_PER_PHOTO"
    unfolding js_slice_from_def using le js_slice_length order_trans by blast
  with assms(2,4) le show ?thesis
    by (auto simp: serializePhoto_def array_copy_def array_slice_from_def array_reverse_def
        Let_def capped_def nth_append)
qed

lemma serializeAll_capped:
  assumes "wf st" "capped st" "list_all (\<lambda>r. r < length (objs st)) rs"
    "serializeAll rs st = (vs, st')"
  shows "capped st'"
  using assms
proof (induction rs arbitrary: st vs st')
  case Nil
  then show ?case by simp
next
  case (Cons r rs)
  obtain v st1 where s1: "serializePhoto r st = (v, st1)" by (cases "serializePhoto r st")
  obtain vs2 st2 where s2: "serializeAll rs st1 = (vs2, st2)" by (cases "serializeAll rs st1")
  from Cons.prems(4) s1 s2 have eq: "st' = st2" by simp
  note f1 = serializePhoto_frame[OF s1]
  have w1: "wf st1" using Cons.prems(1) f1 by (auto intro: wf_frame)
  have c1: "capped st1" using serializePhoto_capped[OF Cons.prems(1,2) _ s1] Cons.prems(3) by simp
  have l1: "list_all (\<lambda>r. r < length (objs st1)) rs" using Cons.prems(3) f1 by simp
  from Cons.IH[OF w1 c1 l1 s2] eq show ?case by simp
qed

lemma getFeed_capped:
  assumes "wf st" "capped st" "getFeed e c l st = (res, st')"
  shows "capped st'"
proof -
  define cursor where "cursor = (case c of None \<Rightarrow> 0 | Some c \<Rightarrow> c)"
  define limit where "limit = (case l of None \<Rightarrow> DEFAULT_PAGE_SIZE | Some l \<Rightarrow> l)"
  define st1 where "st1 = ensurePhotos e (cursor + limit + 2) st"
  define ordered where "ordered = js_sort (feed_cmp st1) (photos st1)"
  obtain vs st2 where s: "serializeAll (js_slice cursor (cursor + limit) ordered) st1 = (vs, st2)"
    by (cases "serializeAll (js_slice cursor (cursor + limit) ordered) st1")
  have eq: "st' = st2" using assms(3) s
    by (simp add: getFeed_def Let_def cursor_def limit_def st1_def ordered_def)
  have w1: "wf st1" unfolding st1_def by (rule ensurePhotos_wf[OF assms(1)])
  have c1: "capped st1" unfolding st1_def by (rule ensurePhotos_capped[OF assms(2)])
  have "set (js_slice cursor (cursor + limit) ordered) \<subseteq> set (photos st1)"
    using set_js_slice[of cursor "cursor + limit" ordered] by (simp add: ordered_def set_js_sort)
  then have "list_all (\<lambda>r. r < length (objs st1)) (js_slice cursor (cursor + limit) ordered)"
    using w1 by (auto simp: wf_def list_all_iff)
  from serializeAll_capped[OF w1 c1 this s] eq show ?thesis by simp
qed

lemma step_capped: "wf st \<Longrightarrow> capped st \<Longrightarrow> capped (step e st req)"
proof (cases req)
  case (React a p)
  assume "capped st"
  then show ?thesis using React addReaction_capped[OF _ surjective_pairing] by simp
next
  case (Comment t p)
  assume "capped st"
  then show ?thesis using Comment addComment_capped[OF _ surjective_pairing] by simp
next
  case (ListFeed c l)
  assume "wf st" "capped st"
  then show ?thesis using ListFeed getFeed_capped[OF _ _ surjective_pairing] by simp
qed

lemma boot_capped: "capped (boot e)"
  unfolding boot_def by (rule ensurePhotos_capped) (simp add: capped_def empty_state_def)

lemma foldl_step_capped: "wf st \<Longrightarrow> capped st \<Longrightarrow> capped (foldl (step e) st reqs)"
  by (induction reqs arbitrary: st) (simp_all add: step_wf step_capped)

lemma run_capped: "capped (run e reqs)"
  unfolding run_def by (rule foldl_step_capped[OF boot_wf boot_capped])

lemma wf_capped_ledgers:
  assumes "wf st" "capped st"
  shows "list_all (\<lambda>r. length (arrs st ! comments (objs st ! r)) \<le> MAX_COMMENTS_PER_PHOTO) (photos st)"
  using assms by (auto simp: wf_def capped_def list_all_iff)

subsection \<open>The store only grows\<close>

lemma ensurePhotos_length:
  "int (length (photos (ensurePhotos e n st))) = max n (int (length (photos st)))"
proof (induction e n st rule: ensurePhotos.induct)
  case (1 e minCount st)
  show ?case
  proof (cases "int (length (photos st)) < minCount")
    case True
    obtain r st1 where c: "createPhoto e st = (r, st1)" by (cases "createPhoto e st")
    from "1.IH"[OF True] c True createPhoto_sel(4)[OF c]
    show ?thesis by (simp add: ensurePhotos.simps[of e minCount st])
  next
    case False
    then show ?thesis by (simp add: ensurePhotos.simps[of e minCount st])
  qed
qed

lemma ensurePhotos_noop:
  "n \<le> int (length (photos st)) \<Longrightarrow> ensurePhotos e n st = st"
  by (simp add: ensurePhotos.simps[of e n st])

lemma getOrCreatePhoto_length:
  "getOrCreatePhoto e photoId st = (ro, st1) \<Longrightarrow> length (photos st) \<le> length (photos st1)"
  by (auto simp: getOrCreatePhoto_def createPhoto_def Let_def split: if_splits option.splits)

lemma addReaction_photos:
  "addReaction e action photoId st = (res, st') \<Longrightarrow>
     photos st' = photos (snd (getOrCreatePhoto e photoId st))"
  by (auto simp: addReaction_def Let_def split: prod.splits option.splits if_splits)

lemma addComment_photos:
  "addComment e raw photoId st = (res, st') \<Longrightarrow>
     photos st' = photos st \<or> photos st' = photos (snd (getOrCreatePhoto e photoId st))"
  by (auto simp: addComment_def Let_def push_capped_sel split: prod.splits option.splits if_splits)

lemma getFeed_photos:
  assumes "getFeed e c l st = (res, st')"
  shows "photos st' = photos (ensurePhotos e ((case c of None \<Rightarrow> 0 | Some c \<Rightarrow> c)
            + (case l of None \<Rightarrow> DEFAULT_PAGE_SIZE | Some l \<Rightarrow> l) + 2) st)"
proof -
  define cursor where "cursor = (case c of None \<Rightarrow> 0 | Some c \<Rightarrow> c)"
  define limit where "limit = (case l of None \<Rightarrow> DEFAULT_PAGE_SIZE | Some l \<Rightarrow> l)"
  define st1 where "st1 = ensurePhotos e (cursor + limit + 2) st"
  define ordered where "ordered = js_sort (feed_cmp st1) (photos st1)"
  obtain vs st2 where s: "serializeAll (js_slice cursor (cursor + limit) ordered) st1 = (vs, st2)"
    by (cases "serializeAll (js_slice cursor (cursor + limit) ordered) st1")
  have eq: "st' = st2" using assms s
    by (simp add: getFeed_def Let_def cursor_def limit_def st1_def ordered_def)
  from serializeAll_frame[OF s] eq show ?thesis
    by (simp add: st1_def cursor_def limit_def)
qed

lemma step_length: "length (photos st) \<le> length (photos (step e st req))"
proof (cases req)
  case (React a p)
  have "photos (step e st req) = photos (snd (getOrCreatePhoto e p st))"
    using React addReaction_photos[OF surjective_pairing] by simp
  then show ?thesis using getOrCreatePhoto_length[OF surjective_pairing, where e=e and photoId=p and st=st] by simp
next
  case (Comment t p)
  have "photos (step e st req) = photos st
      \<or> photos (step e st req) = photos (snd (getOrCreatePhoto e p st))"
    using Comment addComment_photos[OF surjective_pairing] by simp
  then show ?thesis using getOrCreatePhoto_length[OF surjective_pairing, where e=e and photoId=p and st=st] by auto
next
  case (ListFeed c l)
  have "int (length (photos (step e st req))) \<ge> int (length (photos st))"
    using ListFeed getFeed_photos[OF surjective_pairing, where e=e and c=c and l=l and st=st]
    by (simp add: ensurePhotos_length)
  then show ?thesis by simp
qed

lemma foldl_step_length: "length (photos st) \<le> length (photos (foldl (step e) st reqs))"
proof (induction reqs arbitrary: st)
  case Nil
  show ?case by simp
next
  case (Cons req reqs)
  from step_length[of st e req] Cons[of "step e st req"] show ?case by simp
qed

lemma boot_length: "length (photos (boot e)) = 18"
proof -
  have "int (length (photos (boot e))) = 18"
    unfolding boot_def by (simp add: ensurePhotos_length INITIAL_PHOTO_COUNT_def empty_state_def)
  then show ?thesis by simp
qed

lemma run_length: "18 \<le> length (photos (run e reqs))"
  unfolding run_def using foldl_step_length[of "boot e" e reqs] by (simp add: boot_length)

lemma run_nonempty: "photos (run e reqs) \<noteq> []"
  using run_length[of e reqs] by auto

subsection \<open>Appending a comment\<close>

lemma addComment_ledger:
  assumes "wf st" "capped st" "addComment e raw photoId st = (Inr r, st')"
  shows "\<exists>st1 entry.
           getOrCreatePhoto e photoId st = (Some r, st1)
         \<and> text_comment entry = sanitizeText raw
         \<and> photoId_comment entry = id_photo (objs st1 ! r)
         \<and> comments (objs st' ! r) = comments (objs st1 ! r)
         \<and> arrs st' ! comments (objs st' ! r) =
             (if length (arrs st1 ! comments (objs st1 ! r)) = MAX_COMMENTS_PER_PHOTO
              then tl (arrs st1 ! comments (objs st1 ! r)) @ [entry]
              else arrs st1 ! comments (objs st1 ! r) @ [entry])"
proof -
  have ne: "sanitizeText raw \<noteq> []"
    using assms(3) by (auto simp: addComment_def Let_def split: if_splits)
  obtain ro st1 where g: "getOrCreatePhoto e photoId st = (ro, st1)"
    by (cases "getOrCreatePhoto e photoId st")
  have ro: "ro = Some r"
    using assms(3) g ne by (cases ro) (auto simp: addComment_def Let_def)
  note g' = g[unfolded ro]
  have w1: "wf st1" by (rule getOrCreatePhoto_wf[OF assms(1) g'])
  have c1: "capped st1" by (rule getOrCreatePhoto_capped[OF assms(2) g'])
  have v: "r < length (objs st1)" by (rule getOrCreatePhoto_valid(1)[OF assms(1) g'])
  define a where "a = comments (objs st1 ! r)"
  have av: "a < length (arrs st1)" using w1 v by (simp add: a_def wf_def list_all_iff)
  have le: "length (arrs st1 ! a) \<le> MAX_COMMENTS_PER_PHOTO"
    using c1 av by (simp add: capped_def list_all_iff)
  define entry where "entry = \<lparr>id_comment = number_toString (date_now e (tick st1)) @ lit ''-''
                                              @ js_slice_from 2 (math_random e (tick st1 + 1)),
                              text_comment = sanitizeText raw,
                              photoId_comment = id_photo (objs st1 ! r),
                              timestamp = date_iso e (tick st1 + 2)\<rparr>"
  have st': "st' = (push_capped a entry st1)
               \<lparr>objs := (objs (push_capped a entry st1))
                    [r := (objs (push_capped a entry st1) ! r)\<lparr>updatedAt := date_now e (tick st1 + 3)\<rparr>],
                tick := tick st1 + 4\<rparr>"
    using assms(3) g' ne by (simp add: addComment_def Let_def entry_def a_def)
  have c': "comments (objs st' ! r) = a"
    using v by (simp add: st' push_capped_sel a_def)
  have "arrs st' ! a = arrs (push_capped a entry st1) ! a" by (simp add: st')
  also have "\<dots> = (if length (arrs st1 ! a) = MAX_COMMENTS_PER_PHOTO
              then tl (arrs st1 ! a) @ [entry] else arrs st1 ! a @ [entry])"
    by (rule push_capped_nth(2)[OF av le])
  finally have l: "arrs st' ! a = (if length (arrs st1 ! a) = MAX_COMMENTS_PER_PHOTO
              then tl (arrs st1 ! a) @ [entry] else arrs st1 ! a @ [entry])" .
  have "text_comment entry = sanitizeText raw" "photoId_comment entry = id_photo (objs st1 ! r)"
    by (simp_all add: entry_def)
  with g' c' l show ?thesis unfolding a_def by auto
qed

text \<open>
  Claim C3. After any sequence of requests no comment array is longer than
  80, in particular none that a photo of the store refers to. An append to an
  array within the cap makes it one longer, so at most 81, for a moment; when it had
  80 entries the oldest one is dropped again, otherwise the new entry is simply
  added at the end. That is what a successful \<^verbatim>\<open>addComment\<close> does to the array of
  the photo it returns.
\<close>

theorem comments_never_exceed_cap:
  "MAX_COMMENTS_PER_PHOTO = 80
   \<and> capped (run e reqs)
   \<and> list_all (\<lambda>r. length (arrs (run e reqs) ! comments (objs (run e reqs) ! r)) \<le> 80)
        (photos (run e reqs))
   \<and> (a < length (arrs st) \<and> length (arrs st ! a) \<le> 80 \<longrightarrow>
        length (arrs (array_push a x st) ! a) = length (arrs st ! a) + 1
      \<and> arrs (push_capped a x st) ! a =
          (if length (arrs st ! a) = 80 then tl (arrs st ! a) @ [x] else arrs st ! a @ [x])
      \<and> length (arrs (push_capped a x st) ! a) \<le> 80)
   \<and> (addComment e raw photoId (run e reqs) = (Inr r, st') \<longrightarrow>
        (\<exists>st1 entry.
           getOrCreatePhoto e photoId (run e reqs) = (Some r, st1)
         \<and> text_comment entry = sanitizeText raw
         \<and> comments (objs st' ! r) = comments (objs st1 ! r)
         \<and> arrs st' ! comments (objs st' ! r) =
             (if length (arrs st1 ! comments (objs st1 ! r)) = 80
              then tl (arrs st1 ! comments (objs st1 ! r)) @ [entry]
              else arrs st1 ! comments (objs st1 ! r) @ [entry])))"
proof -
  have m: "MAX_COMMENTS_PER_PHOTO = 80" by (simp add: MAX_COMMENTS_PER_PHOTO_def)
  have p: "a < length (arrs st) \<and> length (arrs st ! a) \<le> 80 \<longrightarrow>
        length (arrs (array_push a x st) ! a) = length (arrs st ! a) + 1
      \<and> arrs (push_capped a x st) ! a =
          (if length (arrs st ! a) = 80 then tl (arrs st ! a) @ [x] else arrs st ! a @ [x])
      \<and> length (arrs (push_capped a x st) ! a) \<le> 80"
    using push_capped_nth[of a st x] unfolding m by blast
  have c: "addComment e raw photoId (run e reqs) = (Inr r, st') \<longrightarrow>
        (\<exists>st1 entry.
           getOrCreatePhoto e photoId (run e reqs) = (Some r, st1)
         \<and> text_comment entry = sanitizeText raw
         \<and> comments (objs st' ! r) = comments (objs st1 ! r)
         \<and> arrs st' ! comments (objs st' ! r) =
             (if length (arrs st1 ! comments (objs st1 ! r)) = 80
              then tl (arrs st1 ! comments (objs st1 ! r)) @ [entry]
              else arrs st1 ! comments (objs st1 ! r) @ [entry]))"
    using addComment_ledger[OF run_wf[of e reqs] run_capped[of e reqs], where e=e and raw=raw and photoId=photoId and r=r and st'=st']
    unfolding m by blast
  from m run_capped[of e reqs] wf_capped_ledgers[OF run_wf run_capped, of e reqs] p c
  show ?thesis unfolding m by blast
qed

theorem comments_never_exceed_cap_witness:
  "0 < length (arrs full_ledger) \<and> length (arrs full_ledger ! 0) = 80
   \<and> length (arrs (array_push 0 \<lparr>id_comment = [], text_comment = lit ''new'',
                                 photoId_comment = [], timestamp = []\<rparr> full_ledger) ! 0) = 81
   \<and> length (arrs (push_capped 0 \<lparr>id_comment = [], text_comment = lit ''new'',
                                  photoId_comment = [], timestamp = []\<rparr> full_ledger) ! 0) = 80
   \<and> text_comment (last (arrs (push_capped 0 \<lparr>id_comment = [], text_comment = lit ''new'',
                                  photoId_comment = [], timestamp = []\<rparr> full_ledger) ! 0)) = lit ''new''
   \<and> capped (run env_ticking [])
   \<and> (\<exists>r st' st1 entry.
         addComment env_ticking (lit ''hi'') None (run env_ticking []) = (Inr r, st')
       \<and> getOrCreatePhoto env_ticking None (run env_ticking []) = (Some r, st1)
       \<and> text_comment entry = sanitizeText (lit ''hi'')
       \<and> arrs st' ! comments (objs st' ! r) =
             (if length (arrs st1 ! comments (objs st1 ! r)) = 80
              then tl (arrs st1 ! comments (objs st1 ! r)) @ [entry]
              else arrs st1 ! comments (objs st1 ! r) @ [entry]))"
proof -
  define x where "x = \<lparr>id_comment = [], text_comment = lit ''new'',
                                 photoId_comment = [], timestamp = []\<rparr>"
  have h: "0 < length (arrs full_ledger)" "length (arrs full_ledger ! 0) = 80"
    by (simp_all add: full_ledger_def)
  have nb: "sanitizeText (lit ''hi'') \<noteq> []"
    by (simp add: sanitizeText_Nil_iff lit_def is_space_def)
  from getOrCreatePhoto_Some[OF run_nonempty[of env_ticking "[]"], where e=env_ticking and photoId=None]
  obtain r st1 where g: "getOrCreatePhoto env_ticking None (run env_ticking []) = (Some r, st1)"
    by (cases "getOrCreatePhoto env_ticking None (run env_ticking [])") auto
  then obtain st' where ac:
    "addComment env_ticking (lit ''hi'') None (run env_ticking []) = (Inr r, st')"
    using nb by (simp add: addComment_def Let_def)
  note t = comments_never_exceed_cap[where a=0 and st=full_ledger and x=x and e=env_ticking
      and reqs="[]" and raw="lit ''hi''" and photoId=None and r=r and st'=st']
  from h t have a: "length (arrs (array_push 0 x full_ledger) ! 0) = 81"
    "arrs (push_capped 0 x full_ledger) ! 0 = tl (arrs full_ledger ! 0) @ [x]"
    by simp_all
  from a(2) h have b: "length (arrs (push_capped 0 x full_ledger) ! 0) = 80"
    "text_comment (last (arrs (push_capped 0 x full_ledger) ! 0)) = lit ''new''"
    by (simp_all add: x_def)
  from t have c: "capped (run env_ticking [])" by blast
  from t ac g have d: "\<exists>entry. text_comment entry = sanitizeText (lit ''hi'')
       \<and> arrs st' ! comments (objs st' ! r) =
             (if length (arrs st1 ! comments (objs st1 ! r)) = 80
              then tl (arrs st1 ! comments (objs st1 ! r)) @ [entry]
              else arrs st1 ! comments (objs st1 ! r) @ [entry])"
    by auto
  from h a(1) b c d ac g show ?thesis unfolding x_def by blast
qed

subsection \<open>The serializer\<close>

lemma js_slice_from_last: "0 < k \<Longrightarrow> js_slice_from (- k) xs = drop (length xs - nat k) xs"
  by (auto simp: js_slice_from_def js_slice_def Let_def max_def nat_diff_distrib')

lemma serializePhoto_view:
  assumes "serializePhoto r st = (v, st')"
  shows "id_v v = id_photo (objs st ! r)" "url_v v = url (objs st ! r)"
    "likes_v v = likes (objs st ! r)" "dislikes_v v = dislikes (objs st ! r)"
    "updatedAt_v v = updatedAt (objs st ! r)" "activity_v v = activity st r"
    "comments_v v = length (arrs st) + 1"
    "arrs st' ! comments_v v = take 6 (rev (arrs st ! comments (objs st ! r)))"
  using assms
  by (auto simp: serializePhoto_def array_copy_def array_slice_from_def array_reverse_def
      Let_def activity_def nth_append js_slice_from_last[of 6, simplified] take_rev)

text \<open>
  Claim C8. The object \<^verbatim>\<open>serializePhoto\<close> returns carries the fields of the photo,
  its activity (likes plus dislikes plus number of comments) and a newly allocated
  array holding the last 6 comments of the photo, newest first. The photo objects,
  the photo array and every comment array that existed before the call are
  unchanged, so the photo still has all its comments and its counts.
\<close>

theorem serializePhoto_projection:
  assumes "serializePhoto r st = (v, st')"
  shows "arrs st' ! comments_v v = take 6 (rev (arrs st ! comments (objs st ! r)))
    \<and> activity_v v
        = likes (objs st ! r) + dislikes (objs st ! r) + length (arrs st ! comments (objs st ! r))
    \<and> id_v v = id_photo (objs st ! r) \<and> url_v v = url (objs st ! r)
    \<and> likes_v v = likes (objs st ! r) \<and> dislikes_v v = dislikes (objs st ! r)
    \<and> updatedAt_v v = updatedAt (objs st ! r)
    \<and> length (arrs st) \<le> comments_v v
    \<and> objs st' = objs st \<and> photos st' = photos st \<and> tick st' = tick st
    \<and> take (length (arrs st)) (arrs st') = arrs st
    \<and> (comments (objs st ! r) < length (arrs st) \<longrightarrow>
         arrs st' ! comments (objs st' ! r) = arrs st ! comments (objs st ! r))"
proof -
  note f = serializePhoto_frame[OF assms]
  note w = serializePhoto_view[OF assms]
  have "arrs st' ! comments (objs st' ! r) = arrs st ! comments (objs st ! r)"
    if "comments (objs st ! r) < length (arrs st)"
  proof -
    have "arrs st' ! comments (objs st ! r)
        = take (length (arrs st)) (arrs st') ! comments (objs st ! r)"
      using that by simp
    then show ?thesis using f by simp
  qed
  with f w show ?thesis by (simp add: activity_def)
qed

theorem serializePhoto_projection_witness:
  "\<exists>v st'. serializePhoto 0 full_ledger = (v, st')
     \<and> comments (objs full_ledger ! 0) < length (arrs full_ledger)
     \<and> length (arrs full_ledger ! comments (objs full_ledger ! 0)) = 80
     \<and> length (arrs st' ! comments_v v) = 6
     \<and> activity_v v = 80
     \<and> arrs st' ! comments (objs st' ! 0) = arrs full_ledger ! comments (objs full_ledger ! 0)"
proof -
  obtain v st' where s: "serializePhoto 0 full_ledger = (v, st')"
    by (cases "serializePhoto 0 full_ledger")
  have o: "objs full_ledger ! 0 = objs two_photos ! 0" by (simp add: full_ledger_def)
  have c: "comments (objs two_photos ! 0) = 0" "likes (objs two_photos ! 0) = 0"
    "dislikes (objs two_photos ! 0) = 0" by code_simp+
  have a: "arrs full_ledger ! 0 = replicate 80 \<lparr>id_comment = lit ''1000-a3f19c2b'',
                                                   text_comment = lit ''hi'',
                                                   photoId_comment = lit ''cat-1000-a3f19c'',
                                                   timestamp = lit ''1970-01-01T00:00:01.000Z''\<rparr>"
    "length (arrs full_ledger) = 2"
    by (simp_all add: full_ledger_def)
  note t = serializePhoto_projection[OF s]
  have pre: "comments (objs full_ledger ! 0) < length (arrs full_ledger)"
    by (simp add: o c a)
  have len: "length (arrs full_ledger ! comments (objs full_ledger ! 0)) = 80"
    by (simp add: o c a)
  from t have "arrs st' ! comments_v v = take 6 (rev (arrs full_ledger ! comments (objs full_ledger ! 0)))"
    by blast
  then have l6: "length (arrs st' ! comments_v v) = 6" using len by simp
  from t have "activity_v v = likes (objs full_ledger ! 0) + dislikes (objs full_ledger ! 0)
      + length (arrs full_ledger ! comments (objs full_ledger ! 0))"
    by blast
  then have act: "activity_v v = 80" using len by (simp add: o c)
  from t pre have fr: "arrs st' ! comments (objs st' ! 0)
      = arrs full_ledger ! comments (objs full_ledger ! 0)"
    by blast
  from s pre len l6 act fr show ?thesis by blast
qed

lemma serializeAll_views:
  assumes "wf st" "list_all (\<lambda>r. r < length (objs st)) rs" "serializeAll rs st = (vs, st')"
  shows "map id_v vs = map (\<lambda>r. id_photo (objs st ! r)) rs
       \<and> map activity_v vs = map (activity st) rs
       \<and> map updatedAt_v vs = map (\<lambda>r. updatedAt (objs st ! r)) rs"
  using assms
proof (induction rs arbitrary: st vs st')
  case Nil
  then show ?case by simp
next
  case (Cons r rs)
  obtain v st1 where s1: "serializePhoto r st = (v, st1)" by (cases "serializePhoto r st")
  obtain vs2 st2 where s2: "serializeAll rs st1 = (vs2, st2)" by (cases "serializeAll rs st1")
  from Cons.prems(3) s1 s2 have eq: "vs = v # vs2" by simp
  note f1 = serializePhoto_frame[OF s1]
  note v1 = serializePhoto_view[OF s1]
  have w1: "wf st1" using Cons.prems(1) f1 by (auto intro: wf_frame)
  have l1: "list_all (\<lambda>r. r < length (objs st1)) rs" using Cons.prems(2) f1 by simp
  have act: "activity st1 q = activity st q" if "q < length (objs st)" for q
  proof -
    have a: "comments (objs st ! q) < length (arrs st)"
      using Cons.prems(1) that by (simp add: wf_def list_all_iff)
    have "arrs st1 ! comments (objs st ! q)
        = take (length (arrs st)) (arrs st1) ! comments (objs st ! q)"
      using a by simp
    then show ?thesis using f1 by (simp add: activity_def)
  qed
  have "map (activity st1) rs = map (activity st) rs"
    using Cons.prems(2) act by (auto simp: list_all_iff)
  with Cons.IH[OF w1 l1 s2] eq v1 f1 show ?case by simp
qed

subsection \<open>Paging\<close>

lemma js_slice_page:
  assumes "0 \<le> cursor" "0 < limit"
  shows "js_slice cursor (cursor + limit) xs = take (nat limit) (drop (nat cursor) xs)"
    "int (length (js_slice cursor (cursor + limit) xs))
       = (if int (length xs) \<le> cursor then 0 else min limit (int (length xs) - cursor))"
proof -
  show 1: "js_slice cursor (cursor + limit) xs = take (nat limit) (drop (nat cursor) xs)"
  proof (cases "cursor \<le> int (length xs)")
    case True
    then show ?thesis using assms
      by (auto simp: js_slice_def Let_def min_def nat_diff_distrib' nat_add_distrib intro!: take_all)
  next
    case False
    then show ?thesis using assms by (auto simp: js_slice_def Let_def min_def)
  qed
  show "int (length (js_slice cursor (cursor + limit) xs))
       = (if int (length xs) \<le> cursor then 0 else min limit (int (length xs) - cursor))"
    unfolding 1 using assms by (auto simp: min_def)
qed

lemma getFeed_result:
  assumes "getFeed e c l st = (res, st')"
    and "cursor = (case c of None \<Rightarrow> 0 | Some c \<Rightarrow> c)"
    and "limit = (case l of None \<Rightarrow> DEFAULT_PAGE_SIZE | Some l \<Rightarrow> l)"
    and "st1 = ensurePhotos e (cursor + limit + 2) st"
    and "ordered = js_sort (feed_cmp st1) (photos st1)"
  shows "serializeAll (js_slice cursor (cursor + limit) ordered) st1 = (photos_f res, st')"
    "nextCursor res = cursor + limit" "totals_f res = computeTotals st' ordered"
proof -
  obtain vs st2 where s: "serializeAll (js_slice cursor (cursor + limit) ordered) st1 = (vs, st2)"
    by (cases "serializeAll (js_slice cursor (cursor + limit) ordered) st1")
  have "res = \<lparr>totals_f = computeTotals st2 ordered, photos_f = vs, nextCursor = cursor + limit\<rparr>
      \<and> st' = st2"
    using assms(1) s unfolding assms(2-5) by (auto simp: getFeed_def Let_def)
  with s show "serializeAll (js_slice cursor (cursor + limit) ordered) st1 = (photos_f res, st')"
    "nextCursor res = cursor + limit" "totals_f res = computeTotals st' ordered"
    by simp_all
qed

lemma serializeAll_ids:
  "serializeAll rs st = (vs, st') \<Longrightarrow> map id_v vs = map (\<lambda>r. id_photo (objs st ! r)) rs"
proof (induction rs arbitrary: st vs st')
  case Nil
  then show ?case by simp
next
  case (Cons r rs)
  obtain v st1 where s1: "serializePhoto r st = (v, st1)" by (cases "serializePhoto r st")
  obtain vs2 st2 where s2: "serializeAll rs st1 = (vs2, st2)" by (cases "serializeAll rs st1")
  from Cons.prems s1 s2 have eq: "vs = v # vs2" by simp
  from Cons.IH[OF s2] eq serializePhoto_view(1)[OF s1] serializePhoto_frame(1)[OF s1]
  show ?case by simp
qed

text \<open>
  Claim C1. For a cursor that is not negative and a positive limit, the page that
  \<^verbatim>\<open>getFeed\<close> returns is the serialized run of the ranked array from position
  \<open>cursor\<close> up to but not including \<open>cursor + limit\<close>, cut off at the end of the
  array: it has \<open>min limit (length - cursor)\<close> entries, none when the cursor is at
  or past the end. The slice expression behaves so on every array. The next cursor
  is \<open>cursor + limit\<close> whatever the length.
\<close>

theorem getFeed_page:
  assumes "0 \<le> cursor" and "0 < limit"
    and "st1 = ensurePhotos e (cursor + limit + 2) st"
    and "ordered = js_sort (feed_cmp st1) (photos st1)"
    and "getFeed e (Some cursor) (Some limit) st = (res, st')"
  shows "map id_v (photos_f res)
           = map (\<lambda>r. id_photo (objs st1 ! r)) (take (nat limit) (drop (nat cursor) ordered))
       \<and> int (length (photos_f res))
           = (if int (length ordered) \<le> cursor then 0 else min limit (int (length ordered) - cursor))
       \<and> nextCursor res = cursor + limit
       \<and> (\<forall>xs :: nat list.
            js_slice cursor (cursor + limit) xs = take (nat limit) (drop (nat cursor) xs)
          \<and> int (length (js_slice cursor (cursor + limit) xs))
              = (if int (length xs) \<le> cursor then 0 else min limit (int (length xs) - cursor)))"
proof -
  note r = getFeed_result[OF assms(5) _ _ assms(3,4), simplified]
  note p = js_slice_page[OF assms(1,2)]
  have a: "map id_v (photos_f res)
           = map (\<lambda>r. id_photo (objs st1 ! r)) (take (nat limit) (drop (nat cursor) ordered))"
    using serializeAll_ids[OF r(1)] p(1)[of ordered] by simp
  have "length (photos_f res) = length (js_slice cursor (cursor + limit) ordered)"
    using serializeAll_frame[OF r(1)] by simp
  then have b: "int (length (photos_f res))
           = (if int (length ordered) \<le> cursor then 0 else min limit (int (length ordered) - cursor))"
    using p(2)[of ordered] by simp
  have c: "\<forall>xs :: nat list.
            js_slice cursor (cursor + limit) xs = take (nat limit) (drop (nat cursor) xs)
          \<and> int (length (js_slice cursor (cursor + limit) xs))
              = (if int (length xs) \<le> cursor then 0 else min limit (int (length xs) - cursor))"
    using p by blast
  from a b r(2) c show ?thesis by blast
qed

theorem getFeed_page_witness:
  "(0::int) \<le> 1 \<and> (0::int) < 3
   \<and> (\<exists>res st'. getFeed env_ticking (Some 1) (Some 3) two_photos = (res, st')
        \<and> length (photos_f res) = 3 \<and> nextCursor res = 4)
   \<and> js_slice 1 (1 + 3) [10, 11, 12 :: nat] = [11, 12]
   \<and> js_slice 5 (5 + 3) [10, 11, 12 :: nat] = []"
proof -
  obtain res st' where g: "getFeed env_ticking (Some 1) (Some 3) two_photos = (res, st')"
    by (cases "getFeed env_ticking (Some 1) (Some 3) two_photos")
  note t = getFeed_page[OF _ _ refl refl g]
  have l: "int (length (js_sort (feed_cmp (ensurePhotos env_ticking (1 + 3 + 2) two_photos))
             (photos (ensurePhotos env_ticking (1 + 3 + 2) two_photos)))) = 6"
    by (simp add: length_js_sort ensurePhotos_length two_photos_eval)
  from t have "int (length (photos_f res)) = (if int (length (js_sort (feed_cmp (ensurePhotos env_ticking (1 + 3 + 2) two_photos))
             (photos (ensurePhotos env_ticking (1 + 3 + 2) two_photos)))) \<le> 1 then 0 else min 3 (int (length (js_sort (feed_cmp (ensurePhotos env_ticking (1 + 3 + 2) two_photos))
             (photos (ensurePhotos env_ticking (1 + 3 + 2) two_photos)))) - 1))"
    by simp
  then have a: "length (photos_f res) = 3" unfolding l by simp
  from t have n: "nextCursor res = 4" by simp
  from t have sl: "\<And>xs :: nat list. js_slice 1 (1 + 3) xs = take (nat 3) (drop (nat 1) xs)"
    by simp
  have b: "js_slice 1 (1 + 3) [10, 11, 12 :: nat] = [11, 12]"
    unfolding sl by simp
  have c: "js_slice 5 (5 + 3) [10, 11, 12 :: nat] = []"
    by (simp add: js_slice_def)
  from g a n b c show ?thesis by auto
qed

text \<open>
  Claim C9. For a cursor that is not negative and a positive limit, \<^verbatim>\<open>getFeed\<close>
  first grows the photo array to at least \<open>cursor + limit + 2\<close> entries, which is
  the array the store keeps afterwards, and the page it returns has exactly
  \<open>limit\<close> entries. No request makes the photo array shorter; it has 18 entries
  once the module is loaded and at least 18 after any sequence of requests.
\<close>

theorem getFeed_grows_store:
  assumes "0 \<le> cursor" and "0 < limit"
    and "getFeed e (Some cursor) (Some limit) st = (res, st')"
  shows "cursor + limit + 2 \<le> int (length (photos (ensurePhotos e (cursor + limit + 2) st)))
       \<and> photos st' = photos (ensurePhotos e (cursor + limit + 2) st)
       \<and> int (length (photos_f res)) = limit
       \<and> length (photos st) \<le> length (photos (step e st req))
       \<and> INITIAL_PHOTO_COUNT = 18
       \<and> length (photos (boot e)) = 18
       \<and> 18 \<le> length (photos (run e reqs))"
proof -
  define st1 where "st1 = ensurePhotos e (cursor + limit + 2) st"
  define ordered where "ordered = js_sort (feed_cmp st1) (photos st1)"
  have a: "cursor + limit + 2 \<le> int (length (photos st1))"
    unfolding st1_def by (simp add: ensurePhotos_length)
  have b: "photos st' = photos st1"
    using getFeed_photos[OF assms(3)] by (simp add: st1_def)
  have "int (length ordered) = int (length (photos st1))"
    by (simp add: ordered_def length_js_sort)
  with a have lo: "cursor + limit + 2 \<le> int (length ordered)" by simp
  note r = getFeed_result[OF assms(3) _ _ st1_def ordered_def, simplified]
  have "length (photos_f res) = length (js_slice cursor (cursor + limit) ordered)"
    using serializeAll_frame[OF r(1)] by simp
  then have "int (length (photos_f res))
           = (if int (length ordered) \<le> cursor then 0 else min limit (int (length ordered) - cursor))"
    using js_slice_page(2)[OF assms(1,2), of ordered] by simp
  with lo assms(1,2) have c: "int (length (photos_f res)) = limit" by (simp add: min_def)
  have d: "INITIAL_PHOTO_COUNT = 18" by (simp add: INITIAL_PHOTO_COUNT_def)
  from a b c d step_length[of st e req] boot_length[of e] run_length[of e reqs]
  show ?thesis unfolding st1_def by blast
qed

theorem getFeed_grows_store_witness:
  "(0::int) \<le> 1 \<and> (0::int) < 3
   \<and> length (photos two_photos) = 2
   \<and> (\<exists>res st'. getFeed env_ticking (Some 1) (Some 3) two_photos = (res, st')
        \<and> length (photos_f res) = 3 \<and> 6 \<le> length (photos st'))"
proof -
  obtain res st' where g: "getFeed env_ticking (Some 1) (Some 3) two_photos = (res, st')"
    by (cases "getFeed env_ticking (Some 1) (Some 3) two_photos")
  note t = getFeed_grows_store[OF _ _ g]
  from t have a: "int (length (photos_f res)) = 3" by simp
  from t have "1 + 3 + 2 \<le> int (length (photos (ensurePhotos env_ticking (1 + 3 + 2) two_photos)))"
    "photos st' = photos (ensurePhotos env_ticking (1 + 3 + 2) two_photos)" by simp_all
  then have b: "6 \<le> length (photos st')" by simp
  from g a b two_photos_eval show ?thesis by auto
qed

subsection \<open>Ranking\<close>

lemma feed_cmp_le: "feed_cmp st a b \<le> 0 \<longleftrightarrow> ranked_before st a b"
  by (auto simp: feed_cmp_def ranked_before_def Let_def)

lemma ranked_before_total: "\<not> ranked_before st a b \<Longrightarrow> ranked_before st b a"
  by (auto simp: ranked_before_def)

lemma ranked_before_trans:
  "ranked_before st a b \<Longrightarrow> ranked_before st b c \<Longrightarrow> ranked_before st a c"
  by (auto simp: ranked_before_def)

lemma ranked_before_key:
  "rank_key st a = rank_key st b \<Longrightarrow> ranked_before st a b"
  by (auto simp: ranked_before_def rank_key_def)

lemma set_insert_cmp: "set (insert_cmp cmp x ys) = insert x (set ys)"
  by (induction ys) auto

lemma sorted_insert_cmp:
  assumes "sorted_wrt (ranked_before st) ys"
  shows "sorted_wrt (ranked_before st) (insert_cmp (feed_cmp st) x ys)"
  using assms
proof (induction ys)
  case Nil
  show ?case by simp
next
  case (Cons y ys)
  show ?case
  proof (cases "feed_cmp st x y \<le> 0")
    case True
    then have xy: "ranked_before st x y" by (simp add: feed_cmp_le)
    have "\<forall>z\<in>set ys. ranked_before st x z"
      using Cons.prems xy by (auto intro: ranked_before_trans)
    with True xy Cons.prems show ?thesis by simp
  next
    case False
    then have yx: "ranked_before st y x"
      by (simp add: feed_cmp_le ranked_before_total)
    with False Cons show ?thesis by (auto simp: set_insert_cmp)
  qed
qed

lemma sorted_js_sort: "sorted_wrt (ranked_before st) (js_sort (feed_cmp st) xs)"
  unfolding js_sort_def by (induction xs) (simp_all add: sorted_insert_cmp)

lemma filter_insert_cmp:
  assumes "\<And>y. P x \<Longrightarrow> P y \<Longrightarrow> cmp x y \<le> 0"
  shows "filter P (insert_cmp cmp x ys) = (if P x then x # filter P ys else filter P ys)"
  using assms by (induction ys) auto

lemma stable_js_sort:
  "filter (\<lambda>r. rank_key st r = k) (js_sort (feed_cmp st) xs) = filter (\<lambda>r. rank_key st r = k) xs"
proof (induction xs)
  case Nil
  show ?case by (simp add: js_sort_def)
next
  case (Cons x xs)
  have "filter (\<lambda>r. rank_key st r = k) (insert_cmp (feed_cmp st) x (js_sort (feed_cmp st) xs))
      = (if rank_key st x = k then x # filter (\<lambda>r. rank_key st r = k) (js_sort (feed_cmp st) xs)
         else filter (\<lambda>r. rank_key st r = k) (js_sort (feed_cmp st) xs))"
    by (rule filter_insert_cmp) (simp add: feed_cmp_le ranked_before_key)
  with Cons show ?case by (simp add: js_sort_def)
qed

lemma insert_cmp_cong:
  "(\<And>y. y \<in> set ys \<Longrightarrow> cmp x y = cmp' x y) \<Longrightarrow> insert_cmp cmp x ys = insert_cmp cmp' x ys"
  by (induction ys) auto

lemma js_sort_cong:
  assumes "\<And>a b. a \<in> set xs \<Longrightarrow> b \<in> set xs \<Longrightarrow> cmp a b = cmp' a b"
  shows "js_sort cmp xs = js_sort cmp' xs"
  using assms
proof (induction xs)
  case Nil
  show ?case by (simp add: js_sort_def)
next
  case (Cons x xs)
  have ih: "js_sort cmp xs = js_sort cmp' xs" using Cons by simp
  have "insert_cmp cmp x (js_sort cmp' xs) = insert_cmp cmp' x (js_sort cmp' xs)"
    by (rule insert_cmp_cong) (use Cons.prems in \<open>simp add: set_js_sort\<close>)
  with ih show ?case by (simp add: js_sort_def)
qed

lemma feed_cmp_key:
  "rank_key st a = rank_key st2 a \<Longrightarrow> rank_key st b = rank_key st2 b \<Longrightarrow>
     feed_cmp st a b = feed_cmp st2 a b"
  by (simp add: feed_cmp_def rank_key_def Let_def)

lemma js_sort_snapshot:
  assumes "list_all (\<lambda>r. rank_key st r = rank_key st2 r) xs"
  shows "js_sort (feed_cmp st) xs = js_sort (feed_cmp st2) xs"
  by (rule js_sort_cong) (use assms in \<open>auto simp: list_all_iff intro: feed_cmp_key\<close>)

text \<open>
  A list that is a rearrangement of \<open>xs\<close>, in ranking order, with the photos of
  equal activity and update time in their order in \<open>xs\<close>, is the list the
  model of \<^verbatim>\<open>sort\<close> computes: the ranking does not depend on the sorting algorithm.
\<close>

lemma stable_sorted_unique:
  assumes "sorted_wrt (ranked_before st) ys" "sorted_wrt (ranked_before st) zs"
    and "\<And>k. filter (\<lambda>r. rank_key st r = k) ys = filter (\<lambda>r. rank_key st r = k) zs"
  shows "ys = zs"
  using assms
proof (induction ys arbitrary: zs)
  case Nil
  have "filter (\<lambda>r. rank_key st r = rank_key st z) zs = []" for z
    using Nil(3)[of "rank_key st z"] by simp
  then have "z \<notin> set zs" for z
    by (auto simp: filter_empty_conv)
  then show ?case by (cases zs) auto
next
  case (Cons y ys)
  define k where "k = rank_key st y"
  have fy: "filter (\<lambda>r. rank_key st r = k) (y # ys) = y # filter (\<lambda>r. rank_key st r = k) ys"
    by (simp add: k_def)
  with Cons.prems(3)[of k] have fz: "filter (\<lambda>r. rank_key st r = k) zs
      = y # filter (\<lambda>r. rank_key st r = k) ys" by simp
  have "y \<in> set (filter (\<lambda>r. rank_key st r = k) zs)" unfolding fz by simp
  then have "y \<in> set zs" by simp
  obtain z zs' where zs: "zs = z # zs'" using fz by (cases zs) auto
  have zin: "z \<in> set (y # ys)"
  proof -
    have "z \<in> set (filter (\<lambda>r. rank_key st r = rank_key st z) zs)" by (simp add: zs)
    then have "z \<in> set (filter (\<lambda>r. rank_key st r = rank_key st z) (y # ys))"
      using Cons.prems(3)[of "rank_key st z"] by simp
    then show ?thesis by (auto split: if_splits)
  qed
  have yz: "ranked_before st y z" using Cons.prems(1) zin by (auto simp: ranked_before_key)
  have zy: "ranked_before st z y" using Cons.prems(2) \<open>y \<in> set zs\<close> zs
    by (auto simp: ranked_before_key)
  from yz zy have "rank_key st z = k"
    by (auto simp: ranked_before_def rank_key_def k_def)
  with fz zs have "z = y" by simp
  have "ys = zs'"
  proof (rule Cons.IH)
    show "sorted_wrt (ranked_before st) ys" using Cons.prems(1) by simp
    show "sorted_wrt (ranked_before st) zs'" using Cons.prems(2) zs by simp
    show "filter (\<lambda>r. rank_key st r = k') ys = filter (\<lambda>r. rank_key st r = k') zs'" for k'
      using Cons.prems(3)[of k'] zs \<open>z = y\<close> by (simp split: if_splits)
  qed
  with zs \<open>z = y\<close> show ?case by simp
qed

lemma sorted_js_slice:
  "sorted_wrt R xs \<Longrightarrow> sorted_wrt R (js_slice start fin xs)"
proof -
  assume s: "sorted_wrt R xs"
  obtain n k where "js_slice start fin xs = take n (drop k xs)"
    using js_slice_take_drop by blast
  with s show ?thesis by (simp add: sorted_wrt_take sorted_wrt_drop)
qed

lemma sorted_views:
  assumes "sorted_wrt (ranked_before st) rs"
    and "map activity_v vs = map (activity st) rs"
    and "map updatedAt_v vs = map (\<lambda>r. updatedAt (objs st ! r)) rs"
  shows "sorted_wrt view_before vs"
proof -
  have len: "length vs = length rs" using assms(2) by (metis length_map)
  have a: "activity_v (vs ! i) = activity st (rs ! i)" if "i < length rs" for i
    using assms(2) that len by (metis nth_map)
  have u: "updatedAt_v (vs ! i) = updatedAt (objs st ! (rs ! i))" if "i < length rs" for i
    using assms(3) that len by (metis nth_map)
  have "view_before (vs ! i) (vs ! j)" if "i < j" "j < length vs" for i j
  proof -
    have "ranked_before st (rs ! i) (rs ! j)"
      using assms(1) that len by (simp add: sorted_wrt_iff_nth_less)
    then show ?thesis using a[of i] a[of j] u[of i] u[of j] that len
      by (simp add: ranked_before_def view_before_def)
  qed
  then show ?thesis by (simp add: sorted_wrt_iff_nth_less)
qed

lemma getFeed_ranked:
  assumes "wf st" "getFeed e c l st = (res, st')"
    and "cursor = (case c of None \<Rightarrow> 0 | Some c \<Rightarrow> c)"
    and "limit = (case l of None \<Rightarrow> DEFAULT_PAGE_SIZE | Some l \<Rightarrow> l)"
    and "st1 = ensurePhotos e (cursor + limit + 2) st"
  shows "map id_v (photos_f res)
       = map (\<lambda>r. id_photo (objs st1 ! r))
           (js_slice cursor (cursor + limit) (js_sort (feed_cmp st1) (photos st1)))"
    "sorted_wrt view_before (photos_f res)"
proof -
  define ordered where "ordered = js_sort (feed_cmp st1) (photos st1)"
  note r = getFeed_result[OF assms(2-5) ordered_def]
  have w1: "wf st1" unfolding assms(5) by (rule ensurePhotos_wf[OF assms(1)])
  have "set (js_slice cursor (cursor + limit) ordered) \<subseteq> set (photos st1)"
    using set_js_slice[of cursor "cursor + limit" ordered] by (simp add: ordered_def set_js_sort)
  then have v: "list_all (\<lambda>r. r < length (objs st1)) (js_slice cursor (cursor + limit) ordered)"
    using w1 by (auto simp: wf_def list_all_iff)
  note sv = serializeAll_views[OF w1 v r(1)]
  show "map id_v (photos_f res)
       = map (\<lambda>r. id_photo (objs st1 ! r))
           (js_slice cursor (cursor + limit) (js_sort (feed_cmp st1) (photos st1)))"
    using sv by (simp add: ordered_def)
  have "sorted_wrt (ranked_before st1) (js_slice cursor (cursor + limit) ordered)"
    unfolding ordered_def by (rule sorted_js_slice[OF sorted_js_sort])
  then show "sorted_wrt view_before (photos_f res)"
    using sv by (auto intro: sorted_views)
qed

text \<open>
  Claim C2. The ranked array is a rearrangement of the photo array in which a photo
  with more activity (likes plus dislikes plus number of comments) comes before one
  with less, and of two photos with equal activity the one updated later comes
  first. Photos equal in both keep the order they have in the photo array. The
  result is fixed by the activity and update time of the photos alone, and it is
  the only arrangement with these properties. The page \<^verbatim>\<open>getFeed\<close> returns is a
  slice of that array, so its entries are in ranking order too.
\<close>

theorem getFeed_ranking:
  "mset (js_sort (feed_cmp st) xs) = mset xs
   \<and> sorted_wrt (ranked_before st) (js_sort (feed_cmp st) xs)
   \<and> (\<forall>k. filter (\<lambda>r. rank_key st r = k) (js_sort (feed_cmp st) xs)
           = filter (\<lambda>r. rank_key st r = k) xs)
   \<and> (list_all (\<lambda>r. rank_key st r = rank_key st2 r) xs \<longrightarrow>
        js_sort (feed_cmp st) xs = js_sort (feed_cmp st2) xs)
   \<and> (sorted_wrt (ranked_before st) ys
        \<and> (\<forall>k. filter (\<lambda>r. rank_key st r = k) ys = filter (\<lambda>r. rank_key st r = k) xs) \<longrightarrow>
        ys = js_sort (feed_cmp st) xs)
   \<and> (wf st \<and> getFeed e (Some cursor) (Some limit) st = (res, st') \<longrightarrow>
        map id_v (photos_f res)
          = map (\<lambda>r. id_photo (objs (ensurePhotos e (cursor + limit + 2) st) ! r))
              (js_slice cursor (cursor + limit)
                (js_sort (feed_cmp (ensurePhotos e (cursor + limit + 2) st))
                   (photos (ensurePhotos e (cursor + limit + 2) st))))
      \<and> sorted_wrt view_before (photos_f res))"
proof -
  have u: "ys = js_sort (feed_cmp st) xs"
    if "sorted_wrt (ranked_before st) ys"
      "\<forall>k. filter (\<lambda>r. rank_key st r = k) ys = filter (\<lambda>r. rank_key st r = k) xs"
    by (rule stable_sorted_unique[OF that(1) sorted_js_sort]) (simp add: that(2) stable_js_sort)
  have g: "map id_v (photos_f res)
          = map (\<lambda>r. id_photo (objs (ensurePhotos e (cursor + limit + 2) st) ! r))
              (js_slice cursor (cursor + limit)
                (js_sort (feed_cmp (ensurePhotos e (cursor + limit + 2) st))
                   (photos (ensurePhotos e (cursor + limit + 2) st))))
      \<and> sorted_wrt view_before (photos_f res)"
    if "wf st" "getFeed e (Some cursor) (Some limit) st = (res, st')"
    using getFeed_ranked[OF that _ _ refl, of cursor limit] by simp
  from mset_js_sort[of "feed_cmp st" xs] sorted_js_sort[of st xs] stable_js_sort[of st _ xs]
    js_sort_snapshot[of st st2 xs] u g
  show ?thesis by blast
qed

theorem getFeed_ranking_witness:
  "wf ranked_example
   \<and> photos ranked_example = [3, 2, 0, 1]
   \<and> map (rank_key ranked_example) (photos ranked_example)
       = [(1, 1013), (1, 1009), (0, 1002), (0, 1005)]
   \<and> js_sort (feed_cmp ranked_example) (photos ranked_example) = [3, 2, 1, 0]
   \<and> sorted_wrt (ranked_before ranked_example) [3, 2, 1, 0]
   \<and> list_all (\<lambda>r. rank_key ranked_example r = rank_key ranked_example r) (photos ranked_example)
   \<and> (\<exists>res st'. getFeed env_ticking (Some 0) (Some 2) ranked_example = (res, st')
        \<and> sorted_wrt view_before (photos_f res))"
proof -
  have w: "wf ranked_example"
    unfolding ranked_example_def by (intro step_wf two_photos_wf)
  have p: "photos ranked_example = [3, 2, 0, 1]" by code_simp
  have k: "map (rank_key ranked_example) (photos ranked_example)
       = [(1, 1013), (1, 1009), (0, 1002), (0, 1005)]" by code_simp
  have s: "js_sort (feed_cmp ranked_example) (photos ranked_example) = [3, 2, 1, 0]"
    by code_simp
  have l: "list_all (\<lambda>r. rank_key ranked_example r = rank_key ranked_example r)
      (photos ranked_example)"
    by (simp add: list_all_iff)
  obtain res st' where g: "getFeed env_ticking (Some 0) (Some 2) ranked_example = (res, st')"
    by (cases "getFeed env_ticking (Some 0) (Some 2) ranked_example")
  note t = getFeed_ranking[where st=ranked_example and xs="photos ranked_example"
      and ?st2.0=ranked_example and e=env_ticking and cursor=0 and limit=2 and res=res and st'=st']
  from t have a: "sorted_wrt (ranked_before ranked_example) [3, 2, 1, 0]"
    unfolding s by blast
  from t w g have b: "sorted_wrt view_before (photos_f res)" by blast
  from w p k s a l g b show ?thesis by blast
qed

subsection \<open>Identifiers\<close>

lemma dec_nat_nonempty: "dec_nat n \<noteq> []"
  by (subst dec_nat.simps) simp

lemma digit_inj:
  assumes "m < 10" "n < 10" "(of_nat (48 + m) :: 16 word) = of_nat (48 + n)"
  shows "m = n"
proof -
  have a: "unat (of_nat (48 + k) :: 16 word) = 48 + k" if "k < 10" for k
    using that by (subst unat_of_nat) simp
  from assms(3) have "unat (of_nat (48 + m) :: 16 word) = unat (of_nat (48 + n) :: 16 word)"
    by (simp only:)
  then show ?thesis unfolding a[OF assms(1)] a[OF assms(2)] by simp
qed

lemma dec_nat_inj: "dec_nat m = dec_nat n \<Longrightarrow> m = n"
proof (induction m arbitrary: n rule: dec_nat.induct)
  case (1 m)
  show ?case
  proof (cases "m < 10")
    case True
    show ?thesis
    proof (cases "n < 10")
      case n: True
      from "1.prems" True n have "(of_nat (48 + m) :: 16 word) = of_nat (48 + n)"
        by (simp add: dec_nat.simps[of m] dec_nat.simps[of n])
      with True n show ?thesis by (rule digit_inj)
    next
      case False
      with "1.prems" True show ?thesis
        using dec_nat_nonempty[of "n div 10"]
        by (simp add: dec_nat.simps[of m] dec_nat.simps[of n])
    qed
  next
    case False
    show ?thesis
    proof (cases "n < 10")
      case True
      with "1.prems" False show ?thesis
        using dec_nat_nonempty[of "m div 10"]
        by (simp add: dec_nat.simps[of m] dec_nat.simps[of n])
    next
      case n: False
      from "1.prems" False n
      have eq: "dec_nat (m div 10) = dec_nat (n div 10)"
        "(of_nat (48 + m mod 10) :: 16 word) = of_nat (48 + n mod 10)"
        by (simp_all add: dec_nat.simps[of m] dec_nat.simps[of n])
      have d: "m div 10 = n div 10" by (rule "1.IH"[OF False eq(1)])
      have "m mod 10 = n mod 10" by (rule digit_inj[OF _ _ eq(2)]) simp_all
      with d show ?thesis by (metis div_mult_mod_eq)
    qed
  qed
qed

lemma createPhoto_id_ticking_inj: "inj (createPhoto_id env_ticking)"
proof (rule injI)
  fix s t
  assume "createPhoto_id env_ticking s = createPhoto_id env_ticking t"
  then have "dec_nat (1000 + s) = dec_nat (1000 + t)"
    by (simp add: createPhoto_id_def env_ticking_def number_toString_def nat_add_distrib)
  then show "s = t" using dec_nat_inj by fastforce
qed

lemma resolve_None_iff: "resolve st p = None \<longleftrightarrow> p \<notin> set (ids st)"
  by (auto simp: resolve_def ids_def find_None_iff)

lemma find_append:
  "find P (xs @ ys) = (case find P xs of Some x \<Rightarrow> Some x | None \<Rightarrow> find P ys)"
  by (induction xs) auto

lemma same_ids:
  assumes "\<And>x. id_photo (objs st' ! x) = id_photo (objs st ! x)" "photos st' = photos st"
  shows "ids st' = ids st" "resolve st' p = resolve st p"
  using assms by (simp_all add: ids_def resolve_def)

lemma grown_ids:
  assumes "wf st" "objs st' = objs st @ [q]" "photos st' = pre @ photos st @ post"
  shows "ids st' = map (\<lambda>r. id_photo (objs st' ! r)) pre @ ids st
             @ map (\<lambda>r. id_photo (objs st' ! r)) post"
    "resolve st p = Some x \<Longrightarrow> list_all (\<lambda>r. id_photo (objs st' ! r) \<noteq> p) pre \<Longrightarrow>
       resolve st' p = Some x"
proof -
  have old: "id_photo (objs st' ! r) = id_photo (objs st ! r)" if "r \<in> set (photos st)" for r
    using assms(1,2) that by (simp add: wf_def list_all_iff nth_append)
  show "ids st' = map (\<lambda>r. id_photo (objs st' ! r)) pre @ ids st
             @ map (\<lambda>r. id_photo (objs st' ! r)) post"
    using old by (simp add: ids_def assms(3))
  assume r: "resolve st p = Some x" and n: "list_all (\<lambda>r. id_photo (objs st' ! r) \<noteq> p) pre"
  have "find (\<lambda>r. id_photo (objs st' ! r) = p) pre = None"
    using n by (simp add: find_None_iff list_all_iff)
  moreover have "find (\<lambda>r. id_photo (objs st' ! r) = p) (photos st)
      = find (\<lambda>r. id_photo (objs st ! r) = p) (photos st)"
    by (rule find_cong) (simp_all add: old)
  ultimately show "resolve st' p = Some x"
    using r by (simp add: resolve_def assms(3) find_append)
qed

lemma createPhoto_push:
  assumes "wf st" "createPhoto e st = (r, st1)"
  shows "ids (st1\<lparr>photos := photos st1 @ [r]\<rparr>) = ids st @ [createPhoto_id e (tick st)]"
    "resolve st p = Some x \<Longrightarrow> resolve (st1\<lparr>photos := photos st1 @ [r]\<rparr>) p = Some x"
    "tick (st1\<lparr>photos := photos st1 @ [r]\<rparr>) = tick st + 3"
proof -
  define st2 where "st2 = st1\<lparr>photos := photos st1 @ [r]\<rparr>"
  obtain q where o: "objs st2 = objs st @ [q]" "id_photo q = createPhoto_id e (tick st)"
    using assms(2) by (auto simp: createPhoto_def Let_def createPhoto_id_def st2_def)
  have p: "photos st2 = [] @ photos st @ [r]" "r = length (objs st)"
    using assms(2) by (auto simp: createPhoto_def Let_def st2_def)
  from grown_ids(1)[OF assms(1) o(1) p(1)] o p(2)
  show "ids (st1\<lparr>photos := photos st1 @ [r]\<rparr>) = ids st @ [createPhoto_id e (tick st)]"
    by (simp add: st2_def)
  show "resolve (st1\<lparr>photos := photos st1 @ [r]\<rparr>) p = Some x" if "resolve st p = Some x"
    using grown_ids(2)[OF assms(1) o(1) p(1) that] by (simp add: st2_def)
  show "tick (st1\<lparr>photos := photos st1 @ [r]\<rparr>) = tick st + 3"
    using assms(2) by (auto simp: createPhoto_def Let_def)
qed

lemma getOrCreatePhoto_ids:
  assumes "wf st" "getOrCreatePhoto e photoId st = (ro, st1)"
  shows "(ids st1 = ids st \<and> tick st1 = tick st)
       \<or> (\<exists>q. photoId = Some q \<and> q \<notin> set (ids st) \<and> ids st1 = q # ids st
              \<and> tick st1 = tick st + 3)"
    "resolve st p = Some x \<Longrightarrow> resolve st1 p = Some x"
proof -
  show "resolve st1 p = Some x" if rs: "resolve st p = Some x"
  proof (cases "st1 = st")
    case True
    with rs show ?thesis by simp
  next
    case False
    then obtain q where q: "photoId = Some q" "resolve st q = None"
      using assms(2)
      by (auto simp: getOrCreatePhoto_def resolve_def falsy_def split: if_splits option.splits)
    then have nf: "\<not> falsy photoId" using assms(2) False
      by (auto simp: getOrCreatePhoto_def split: if_splits)
    note f = getOrCreatePhoto_fresh[OF nf _ assms(2)]
    have qp: "q \<noteq> p" using q(2) rs by auto
    obtain z where o: "objs st1 = objs st @ [z]" "id_photo z = q"
      using assms(2) nf q
      by (auto simp: getOrCreatePhoto_def resolve_def createPhoto_def Let_def)
    have ph: "photos st1 = [length (objs st)] @ photos st @ []"
      using f(2) q by simp
    show ?thesis
      by (rule grown_ids(2)[OF assms(1) o(1) ph rs]) (simp add: o qp)
  qed
  show "(ids st1 = ids st \<and> tick st1 = tick st)
       \<or> (\<exists>q. photoId = Some q \<and> q \<notin> set (ids st) \<and> ids st1 = q # ids st
              \<and> tick st1 = tick st + 3)"
  proof (cases "st1 = st")
    case True
    then show ?thesis by simp
  next
    case False
    then obtain q where q: "photoId = Some q" "resolve st q = None"
      using assms(2)
      by (auto simp: getOrCreatePhoto_def resolve_def falsy_def split: if_splits option.splits)
    then have nf: "\<not> falsy photoId" using assms(2) False
      by (auto simp: getOrCreatePhoto_def split: if_splits)
    note f = getOrCreatePhoto_fresh[OF nf _ assms(2)]
    obtain z where o: "objs st1 = objs st @ [z]" "id_photo z = q"
      using assms(2) nf q
      by (auto simp: getOrCreatePhoto_def resolve_def createPhoto_def Let_def)
    have ph: "photos st1 = [length (objs st)] @ photos st @ []"
      using f(2) q by simp
    from grown_ids(1)[OF assms(1) o(1) ph] o have "ids st1 = q # ids st" by simp
    with q f(6) show ?thesis by (simp add: resolve_None_iff)
  qed
qed

lemma ensurePhotos_resolve:
  "wf st \<Longrightarrow> resolve st p = Some x \<Longrightarrow> resolve (ensurePhotos e n st) p = Some x"
proof (induction e n st rule: ensurePhotos.induct)
  case (1 e minCount st)
  show ?case
  proof (cases "int (length (photos st)) < minCount")
    case True
    obtain r st1 where c: "createPhoto e st = (r, st1)" by (cases "createPhoto e st")
    from "1.IH"[OF True] c createPhoto_wf(1)[OF "1.prems"(1) c]
      createPhoto_push(2)[OF "1.prems"(1) c "1.prems"(2)] True
    show ?thesis by (simp add: ensurePhotos.simps[of e minCount st])
  next
    case False
    with 1 show ?thesis by (simp add: ensurePhotos.simps[of e minCount st])
  qed
qed

lemma createPhoto_push_distinct:
  assumes "inj (createPhoto_id e)" "wf st" "distinct (ids st)" "generated_earlier e st"
    "createPhoto e st = (r, st1)"
  shows "distinct (ids (st1\<lparr>photos := photos st1 @ [r]\<rparr>))"
    "generated_earlier e (st1\<lparr>photos := photos st1 @ [r]\<rparr>)"
proof -
  note p = createPhoto_push[OF assms(2,5)]
  have "createPhoto_id e (tick st) \<notin> set (ids st)"
    using assms(4) by (auto simp: generated_earlier_def)
  with assms(3) p(1) show "distinct (ids (st1\<lparr>photos := photos st1 @ [r]\<rparr>))" by simp
  show "generated_earlier e (st1\<lparr>photos := photos st1 @ [r]\<rparr>)"
    unfolding generated_earlier_def p(1) p(3)
  proof (intro allI impI)
    fix t
    assume "createPhoto_id e t \<in> set (ids st @ [createPhoto_id e (tick st)])"
    then consider "createPhoto_id e t \<in> set (ids st)"
      | "createPhoto_id e t = createPhoto_id e (tick st)" by auto
    then show "t < tick st + 3"
    proof cases
      case 1
      with assms(4) show ?thesis by (auto simp: generated_earlier_def)
    next
      case 2
      with assms(1) have "t = tick st" by (simp add: inj_eq)
      then show ?thesis by simp
    qed
  qed
qed

lemma ensurePhotos_distinct:
  "inj (createPhoto_id e) \<Longrightarrow> wf st \<Longrightarrow> distinct (ids st) \<Longrightarrow> generated_earlier e st \<Longrightarrow>
     distinct (ids (ensurePhotos e n st)) \<and> generated_earlier e (ensurePhotos e n st)"
proof (induction e n st rule: ensurePhotos.induct)
  case (1 e minCount st)
  show ?case
  proof (cases "int (length (photos st)) < minCount")
    case True
    obtain r st1 where c: "createPhoto e st = (r, st1)" by (cases "createPhoto e st")
    from "1.IH"[OF True "1.prems"(1)] c createPhoto_wf(1)[OF "1.prems"(2) c]
      createPhoto_push_distinct[OF "1.prems" c] True
    show ?thesis by (simp add: ensurePhotos.simps[of e minCount st])
  next
    case False
    with 1 show ?thesis by (simp add: ensurePhotos.simps[of e minCount st])
  qed
qed

lemma id_photo_nth_update:
  "id_photo y = id_photo (xs ! r) \<Longrightarrow> id_photo (xs[r := y] ! x) = id_photo (xs ! x)"
  by (cases "r < length xs"; cases "x = r") (simp_all add: list_update_beyond)

lemma addReaction_same_ids:
  assumes "addReaction e action photoId st = (res, st')"
  shows "ids st' = ids (snd (getOrCreatePhoto e photoId st))"
    "resolve st' p = resolve (snd (getOrCreatePhoto e photoId st)) p"
    "tick (snd (getOrCreatePhoto e photoId st)) \<le> tick st'"
proof -
  obtain ro st1 where g: "getOrCreatePhoto e photoId st = (ro, st1)"
    by (cases "getOrCreatePhoto e photoId st")
  have a: "id_photo (objs st' ! x) = id_photo (objs st1 ! x)" for x
  proof (cases ro)
    case None
    with assms g show ?thesis by (simp add: addReaction_def)
  next
    case (Some r)
    have "objs st' = (objs st1)[r := (\<lambda>y. y\<lparr>dislikes := dislikes y + 1,
              updatedAt := date_now e (tick st1)\<rparr>) (objs st1 ! r)]
        \<or> objs st' = (objs st1)[r := (\<lambda>y. y\<lparr>likes := likes y + 1,
              updatedAt := date_now e (tick st1)\<rparr>) (objs st1 ! r)]"
      using assms g Some
      by (cases "r < length (objs st1)")
        (auto simp: addReaction_def Let_def list_update_beyond split: if_splits)
    then show ?thesis by (auto simp: id_photo_nth_update)
  qed
  have b: "photos st' = photos st1" "tick st1 \<le> tick st'"
    using assms g by (auto simp: addReaction_def Let_def split: option.splits if_splits)
  from same_ids[OF a b(1)] b(2) g
  show "ids st' = ids (snd (getOrCreatePhoto e photoId st))"
    "resolve st' p = resolve (snd (getOrCreatePhoto e photoId st)) p"
    "tick (snd (getOrCreatePhoto e photoId st)) \<le> tick st'"
    by simp_all
qed

lemma addComment_same_ids:
  assumes "addComment e raw photoId st = (res, st')"
  shows "st' = st \<or> (ids st' = ids (snd (getOrCreatePhoto e photoId st))
      \<and> (\<forall>p. resolve st' p = resolve (snd (getOrCreatePhoto e photoId st)) p)
      \<and> tick (snd (getOrCreatePhoto e photoId st)) \<le> tick st')"
proof (cases "sanitizeText raw = []")
  case True
  with assms show ?thesis by (simp add: addComment_def)
next
  case False
  obtain ro st1 where g: "getOrCreatePhoto e photoId st = (ro, st1)"
    by (cases "getOrCreatePhoto e photoId st")
  have a: "id_photo (objs st' ! x) = id_photo (objs st1 ! x)" for x
  proof (cases ro)
    case None
    with assms g False show ?thesis by (auto simp: addComment_def)
  next
    case (Some r)
    have "objs st' = (objs st1)[r := (\<lambda>y. y\<lparr>updatedAt := date_now e (tick st1 + 3)\<rparr>)
        (objs st1 ! r)]"
      using assms g Some False by (auto simp: addComment_def Let_def push_capped_sel)
    then show ?thesis by (simp add: id_photo_nth_update)
  qed
  have b: "photos st' = photos st1" "tick st1 \<le> tick st'"
    using assms g False
    by (auto simp: addComment_def Let_def push_capped_sel split: option.splits)
  from same_ids[OF a b(1)] b(2) g show ?thesis by simp
qed

lemma getFeed_same_ids:
  assumes "getFeed e c l st = (res, st')"
    and "st1 = ensurePhotos e ((case c of None \<Rightarrow> 0 | Some c \<Rightarrow> c)
            + (case l of None \<Rightarrow> DEFAULT_PAGE_SIZE | Some l \<Rightarrow> l) + 2) st"
  shows "ids st' = ids st1" "resolve st' p = resolve st1 p" "tick st' = tick st1"
proof -
  note r = getFeed_result[OF assms(1) refl refl assms(2) refl]
  note f = serializeAll_frame[OF r(1)]
  from f show "ids st' = ids st1" "resolve st' p = resolve st1 p" "tick st' = tick st1"
    by (simp_all add: ids_def resolve_def)
qed

lemma step_resolve:
  assumes "wf st" "resolve st p = Some x"
  shows "resolve (step e st req) p = Some x"
proof (cases req)
  case (React a q)
  from addReaction_same_ids(2)[OF surjective_pairing, where e=e and action=a and photoId=q and st=st and p=p]
    getOrCreatePhoto_ids(2)[OF assms(1) surjective_pairing assms(2), where e=e and photoId=q]
  show ?thesis using React by simp
next
  case (Comment t q)
  from addComment_same_ids[OF surjective_pairing, where e=e and raw=t and photoId=q and st=st]
    getOrCreatePhoto_ids(2)[OF assms(1) surjective_pairing assms(2), where e=e and photoId=q] assms(2)
  show ?thesis using Comment by auto
next
  case (ListFeed c l)
  from getFeed_same_ids(2)[OF surjective_pairing refl, where e=e and c=c and l=l and st=st and p=p]
    ensurePhotos_resolve[OF assms]
  show ?thesis using ListFeed by simp
qed

lemma foldl_step_resolve:
  "wf st \<Longrightarrow> resolve st p = Some x \<Longrightarrow> resolve (foldl (step e) st reqs) p = Some x"
  by (induction reqs arbitrary: st) (simp_all add: step_wf step_resolve)

lemma getOrCreatePhoto_distinct:
  assumes "wf st" "getOrCreatePhoto e photoId st = (ro, st1)"
  shows "distinct (ids st1) \<longleftrightarrow> distinct (ids st)"
  using getOrCreatePhoto_ids(1)[OF assms] by auto

lemma getOrCreatePhoto_generated:
  assumes "wf st" "generated_earlier e st" "getOrCreatePhoto e photoId st = (ro, st1)"
    and "case photoId of None \<Rightarrow> True
         | Some q \<Rightarrow> q \<in> set (ids st) \<or> (\<forall>t. tick st \<le> t \<longrightarrow> q \<noteq> createPhoto_id e t)"
  shows "generated_earlier e st1"
proof -
  from getOrCreatePhoto_ids(1)[OF assms(1,3)]
  consider "ids st1 = ids st" "tick st1 = tick st"
    | q where "photoId = Some q" "q \<notin> set (ids st)" "ids st1 = q # ids st"
        "tick st1 = tick st + 3"
    by blast
  then show ?thesis
  proof cases
    case 1
    with assms(2) show ?thesis by (simp add: generated_earlier_def)
  next
    case 2
    with assms(4) have late: "\<forall>t. tick st \<le> t \<longrightarrow> q \<noteq> createPhoto_id e t" by simp
    show ?thesis
      unfolding generated_earlier_def
    proof (intro allI impI)
      fix t
      assume "createPhoto_id e t \<in> set (ids st1)"
      then consider "createPhoto_id e t = q" | "createPhoto_id e t \<in> set (ids st)"
        using 2(3) by auto
      then show "t < tick st1"
      proof cases
        case 1
        with late have "t < tick st" by (metis not_le)
        with 2(4) show ?thesis by simp
      next
        case 2
        with assms(2) have "t < tick st" by (simp add: generated_earlier_def)
        with \<open>tick st1 = tick st + 3\<close> show ?thesis by simp
      qed
    qed
  qed
qed

lemma generated_earlier_mono:
  "generated_earlier e st \<Longrightarrow> ids st' = ids st \<Longrightarrow> tick st \<le> tick st' \<Longrightarrow>
     generated_earlier e st'"
  by (auto simp: generated_earlier_def intro: less_le_trans)

lemma step_ids:
  assumes "wf st"
  shows "(\<exists>a q. req = React a q \<and> ids (step e st req) = ids (snd (getOrCreatePhoto e q st))
            \<and> tick (snd (getOrCreatePhoto e q st)) \<le> tick (step e st req))
       \<or> (\<exists>t q. req = Comment t q
            \<and> (step e st req = st
               \<or> ids (step e st req) = ids (snd (getOrCreatePhoto e q st))
                 \<and> tick (snd (getOrCreatePhoto e q st)) \<le> tick (step e st req)))
       \<or> (\<exists>c l. req = ListFeed c l
            \<and> ids (step e st req)
                = ids (ensurePhotos e ((case c of None \<Rightarrow> 0 | Some c \<Rightarrow> c)
                    + (case l of None \<Rightarrow> DEFAULT_PAGE_SIZE | Some l \<Rightarrow> l) + 2) st)
            \<and> tick (step e st req)
                = tick (ensurePhotos e ((case c of None \<Rightarrow> 0 | Some c \<Rightarrow> c)
                    + (case l of None \<Rightarrow> DEFAULT_PAGE_SIZE | Some l \<Rightarrow> l) + 2) st))"
proof (cases req)
  case (React a q)
  from addReaction_same_ids(1,3)[OF surjective_pairing, where e=e and action=a and photoId=q and st=st]
  show ?thesis using React by simp
next
  case (Comment t q)
  from addComment_same_ids[OF surjective_pairing, where e=e and raw=t and photoId=q and st=st]
  show ?thesis using Comment by auto
next
  case (ListFeed c l)
  from getFeed_same_ids(1,3)[OF surjective_pairing refl, where e=e and c=c and l=l and st=st]
  show ?thesis using ListFeed by simp
qed

lemma ensurePhotos_distinct_iff:
  "wf st \<Longrightarrow>
     distinct (ids (ensurePhotos e n st)) \<longleftrightarrow> distinct (ids st) \<and> ensurePhotos_fresh e n st"
proof (induction e n st rule: ensurePhotos.induct)
  case (1 e minCount st)
  show ?case
  proof (cases "int (length (photos st)) < minCount")
    case True
    obtain r st1 where c: "createPhoto e st = (r, st1)" by (cases "createPhoto e st")
    define st2 where "st2 = st1\<lparr>photos := photos st1 @ [r]\<rparr>"
    have w2: "wf st2" unfolding st2_def by (rule createPhoto_wf(1)[OF "1.prems" c])
    have i2: "ids st2 = ids st @ [createPhoto_id e (tick st)]"
      unfolding st2_def by (rule createPhoto_push(1)[OF "1.prems" c])
    have ih: "distinct (ids (ensurePhotos e minCount st2))
        \<longleftrightarrow> distinct (ids st2) \<and> ensurePhotos_fresh e minCount st2"
      using "1.IH"[OF True] c w2 by (simp add: st2_def)
    have e1: "ensurePhotos e minCount st = ensurePhotos e minCount st2"
      using True c by (simp add: ensurePhotos.simps[of e minCount st] st2_def)
    have e2: "ensurePhotos_fresh e minCount st
        \<longleftrightarrow> createPhoto_id e (tick st) \<notin> set (ids st) \<and> ensurePhotos_fresh e minCount st2"
      using True c by (simp add: ensurePhotos_fresh.simps[of e minCount st] st2_def)
    show ?thesis unfolding e1 e2 ih i2 by auto
  next
    case False
    then show ?thesis
      by (simp add: ensurePhotos.simps[of e minCount st] ensurePhotos_fresh.simps[of e minCount st])
  qed
qed

lemma step_distinct_iff:
  assumes "wf st"
  shows "distinct (ids (step e st req)) \<longleftrightarrow> distinct (ids st) \<and> step_fresh e st req"
proof (cases req)
  case (React a q)
  from step_ids[OF assms, of req e] React
  have "ids (step e st req) = ids (snd (getOrCreatePhoto e q st))" by auto
  with getOrCreatePhoto_distinct[OF assms surjective_pairing, of e q] React
  show ?thesis by simp
next
  case (Comment t q)
  from step_ids[OF assms, of req e] Comment
  have "step e st req = st \<or> ids (step e st req) = ids (snd (getOrCreatePhoto e q st))"
    by auto
  with getOrCreatePhoto_distinct[OF assms surjective_pairing, of e q] Comment
  show ?thesis by auto
next
  case (ListFeed c l)
  from step_ids[OF assms, of req e] ListFeed
  have "ids (step e st req)
      = ids (ensurePhotos e ((case c of None \<Rightarrow> 0 | Some c \<Rightarrow> c)
          + (case l of None \<Rightarrow> DEFAULT_PAGE_SIZE | Some l \<Rightarrow> l) + 2) st)"
    by auto
  with ensurePhotos_distinct_iff[OF assms] ListFeed show ?thesis by simp
qed

lemma steps_distinct_iff:
  "wf st \<Longrightarrow>
     distinct (ids (foldl (step e) st reqs)) \<longleftrightarrow> distinct (ids st) \<and> steps_fresh e st reqs"
proof (induction reqs arbitrary: st)
  case Nil
  show ?case by simp
next
  case (Cons req reqs)
  from Cons.IH[OF step_wf[OF Cons.prems, of e req]] step_distinct_iff[OF Cons.prems, of e req]
  show ?case by auto
qed

lemma run_distinct_iff: "distinct (ids (run e reqs)) \<longleftrightarrow> run_fresh e reqs"
proof -
  have w: "wf empty_state" by (simp add: wf_def empty_state_def)
  have "distinct (ids (boot e)) \<longleftrightarrow> ensurePhotos_fresh e INITIAL_PHOTO_COUNT empty_state"
    unfolding boot_def using ensurePhotos_distinct_iff[OF w, where e=e and n=INITIAL_PHOTO_COUNT]
    by (simp add: ids_def empty_state_def)
  with steps_distinct_iff[OF boot_wf[of e], where reqs=reqs] show ?thesis
    by (auto simp: run_def run_fresh_def)
qed

lemma step_safe_distinct:
  assumes "inj (createPhoto_id e)" "client_id_safe e st req"
    and "wf st" "distinct (ids st)" "generated_earlier e st"
  shows "distinct (ids (step e st req)) \<and> generated_earlier e (step e st req)"
proof (cases req)
  case (React a q)
  obtain ro st1 where g: "getOrCreatePhoto e q st = (ro, st1)"
    by (cases "getOrCreatePhoto e q st")
  have d: "distinct (ids st1)" using getOrCreatePhoto_distinct[OF assms(3) g] assms(4) by simp
  have ge: "generated_earlier e st1"
    by (rule getOrCreatePhoto_generated[OF assms(3,5) g])
      (use assms(2) React in \<open>simp add: client_id_safe_def\<close>)
  from step_ids[OF assms(3), of req e] React g
  have "ids (step e st req) = ids st1" "tick st1 \<le> tick (step e st req)" by auto
  with d ge show ?thesis by (auto intro: generated_earlier_mono)
next
  case (Comment t q)
  obtain ro st1 where g: "getOrCreatePhoto e q st = (ro, st1)"
    by (cases "getOrCreatePhoto e q st")
  have d: "distinct (ids st1)" using getOrCreatePhoto_distinct[OF assms(3) g] assms(4) by simp
  have ge: "generated_earlier e st1"
    by (rule getOrCreatePhoto_generated[OF assms(3,5) g])
      (use assms(2) Comment in \<open>simp add: client_id_safe_def\<close>)
  from step_ids[OF assms(3), of req e] Comment g
  have "step e st req = st
      \<or> (ids (step e st req) = ids st1 \<and> tick st1 \<le> tick (step e st req))"
    by auto
  with d ge assms(4,5) show ?thesis by (auto intro: generated_earlier_mono)
next
  case (ListFeed c l)
  define st1 where "st1 = ensurePhotos e ((case c of None \<Rightarrow> 0 | Some c \<Rightarrow> c)
            + (case l of None \<Rightarrow> DEFAULT_PAGE_SIZE | Some l \<Rightarrow> l) + 2) st"
  have d: "distinct (ids st1) \<and> generated_earlier e st1"
    unfolding st1_def by (rule ensurePhotos_distinct[OF assms(1,3,4,5)])
  from step_ids[OF assms(3), of req e] ListFeed
  have "ids (step e st req) = ids st1" "tick st1 \<le> tick (step e st req)"
    by (auto simp: st1_def)
  with d show ?thesis by (auto intro: generated_earlier_mono)
qed

lemma steps_safe_distinct:
  "inj (createPhoto_id e) \<Longrightarrow> client_ids_safe e st reqs \<Longrightarrow> wf st \<Longrightarrow> distinct (ids st) \<Longrightarrow>
     generated_earlier e st \<Longrightarrow> distinct (ids (foldl (step e) st reqs))"
proof (induction reqs arbitrary: st)
  case Nil
  then show ?case by simp
next
  case (Cons req reqs)
  have a: "client_id_safe e st req" "client_ids_safe e (step e st req) reqs"
    using Cons.prems(2) by simp_all
  from step_safe_distinct[OF Cons.prems(1) a(1) Cons.prems(3,4,5)]
    step_wf[OF Cons.prems(3), of e req] Cons.IH[OF Cons.prems(1) a(2)]
  show ?case by simp
qed

lemma boot_distinct:
  assumes "inj (createPhoto_id e)"
  shows "distinct (ids (boot e))" "generated_earlier e (boot e)"
proof -
  have "distinct (ids (boot e)) \<and> generated_earlier e (boot e)"
    unfolding boot_def
    by (rule ensurePhotos_distinct[OF assms])
      (simp_all add: wf_def empty_state_def ids_def generated_earlier_def)
  then show "distinct (ids (boot e))" "generated_earlier e (boot e)" by simp_all
qed

lemma run_safe_distinct:
  "inj (createPhoto_id e) \<Longrightarrow> client_ids_safe e (boot e) reqs \<Longrightarrow> distinct (ids (run e reqs))"
  unfolding run_def by (rule steps_safe_distinct[OF _ _ boot_wf boot_distinct])

lemma run_append: "run e (reqs @ later) = foldl (step e) (run e reqs) later"
  by (simp add: run_def)

lemma resolve_Some_id:
  "resolve st p = Some r \<Longrightarrow> r \<in> set (photos st) \<and> id_photo (objs st ! r) = p"
  unfolding resolve_def by (rule find_Some_set)

lemma ensurePhotos_keeps_ids: "wf st \<Longrightarrow> set (ids st) \<subseteq> set (ids (ensurePhotos e n st))"
proof (induction e n st rule: ensurePhotos.induct)
  case (1 e minCount st)
  show ?case
  proof (cases "int (length (photos st)) < minCount")
    case True
    obtain r st1 where c: "createPhoto e st = (r, st1)" by (cases "createPhoto e st")
    from "1.IH"[OF True] c createPhoto_wf(1)[OF "1.prems" c] createPhoto_push(1)[OF "1.prems" c]
      True
    show ?thesis by (auto simp: ensurePhotos.simps[of e minCount st])
  next
    case False
    then show ?thesis by (simp add: ensurePhotos.simps[of e minCount st])
  qed
qed

lemma boot_first_id: "createPhoto_id e 0 \<in> set (ids (boot e))"
proof -
  have w: "wf empty_state" by (simp add: wf_def empty_state_def)
  obtain r st1 where c: "createPhoto e empty_state = (r, st1)"
    by (cases "createPhoto e empty_state")
  define st2 where "st2 = st1\<lparr>photos := photos st1 @ [r]\<rparr>"
  have i2: "ids st2 = [createPhoto_id e 0]"
    using createPhoto_push(1)[OF w c] by (simp add: st2_def ids_def empty_state_def)
  have w2: "wf st2" unfolding st2_def by (rule createPhoto_wf(1)[OF w c])
  have l: "int (length (photos empty_state)) < INITIAL_PHOTO_COUNT"
    by (simp add: empty_state_def INITIAL_PHOTO_COUNT_def)
  have "boot e = ensurePhotos e INITIAL_PHOTO_COUNT st2"
    unfolding boot_def
    by (subst ensurePhotos.simps) (simp add: l c st2_def)
  with ensurePhotos_keeps_ids[OF w2, of e INITIAL_PHOTO_COUNT] i2 show ?thesis by simp
qed

text \<open>
  Claim C7 says that the identifiers in the store are unique. \<^verbatim>\<open>createPhoto\<close>
  builds an identifier from the clock and six hexadecimal digits of a random number
  and \<^verbatim>\<open>ensurePhotos\<close> pushes the photo without looking for the identifier in the
  store. When the clock and the random digits repeat, as they do for photos
  created within one millisecond whose random digits coincide, so does the
  identifier: in the world where both stand still all 18 photos created when the
  module is loaded carry the same one.
\<close>

theorem identifiers_unique_counterexample:
  "\<not> distinct (ids (run env_frozen []))"
  by code_simp

text \<open>
  Claim C7, amended. An identifier that resolves to a photo resolves to that same
  photo, still carrying the identifier, after every further sequence of requests:
  nothing removes a photo, rewrites the identifier of an existing one, or puts a
  photo with that identifier in front of it. \<^verbatim>\<open>getOrCreatePhoto\<close> never adds an
  identifier that the store already has: it leaves the identifiers as they are, or
  puts one identifier that no photo carried in front of them. After loading the
  module and any sequence of requests the identifiers in the store are unique
  exactly if every identifier that \<^verbatim>\<open>createPhoto\<close> built for \<^verbatim>\<open>ensurePhotos\<close> was
  carried by no photo at the moment it was pushed. That is so in particular if
  \<^verbatim>\<open>createPhoto\<close> builds a different identifier at each environment read and every
  identifier a request names is carried by a photo at that moment or is none that
  \<^verbatim>\<open>createPhoto\<close> builds from then on.
\<close>

theorem identifiers_stable:
  "(wf st \<and> resolve st p = Some r \<longrightarrow>
      resolve (foldl (step e) st later) p = Some r
    \<and> id_photo (objs (foldl (step e) st later) ! r) = p)
   \<and> (resolve (run e reqs) p = Some r \<longrightarrow> resolve (run e (reqs @ later)) p = Some r)
   \<and> (wf st \<longrightarrow>
        ids (snd (getOrCreatePhoto e photoId st)) = ids st
      \<or> (\<exists>q. photoId = Some q \<and> q \<notin> set (ids st)
             \<and> ids (snd (getOrCreatePhoto e photoId st)) = q # ids st))
   \<and> (ids (snd (getOrCreatePhoto e photoId (run e reqs))) = ids (run e reqs)
      \<or> (\<exists>q. photoId = Some q \<and> q \<notin> set (ids (run e reqs))
             \<and> ids (snd (getOrCreatePhoto e photoId (run e reqs))) = q # ids (run e reqs)))
   \<and> (distinct (ids (run e reqs)) \<longleftrightarrow> run_fresh e reqs)
   \<and> (inj (createPhoto_id e) \<and> client_ids_safe e (boot e) reqs \<longrightarrow>
        distinct (ids (run e reqs)))"
proof -
  have f1: "wf st \<and> resolve st p = Some r \<longrightarrow>
      resolve (foldl (step e) st later) p = Some r
    \<and> id_photo (objs (foldl (step e) st later) ! r) = p"
    using foldl_step_resolve[of st p r e later] resolve_Some_id by blast
  have f2: "resolve (run e reqs) p = Some r \<longrightarrow> resolve (run e (reqs @ later)) p = Some r"
    unfolding run_append using foldl_step_resolve[OF run_wf] by blast
  have c: "ids (snd (getOrCreatePhoto e photoId s)) = ids s
      \<or> (\<exists>q. photoId = Some q \<and> q \<notin> set (ids s)
             \<and> ids (snd (getOrCreatePhoto e photoId s)) = q # ids s)"
    if "wf s" for s
    using getOrCreatePhoto_ids(1)[OF that surjective_pairing, of e photoId] by blast
  have f3: "wf st \<longrightarrow>
        ids (snd (getOrCreatePhoto e photoId st)) = ids st
      \<or> (\<exists>q. photoId = Some q \<and> q \<notin> set (ids st)
             \<and> ids (snd (getOrCreatePhoto e photoId st)) = q # ids st)"
    using c[of st] by blast
  have f4: "ids (snd (getOrCreatePhoto e photoId (run e reqs))) = ids (run e reqs)
      \<or> (\<exists>q. photoId = Some q \<and> q \<notin> set (ids (run e reqs))
             \<and> ids (snd (getOrCreatePhoto e photoId (run e reqs))) = q # ids (run e reqs))"
    by (rule c[OF run_wf])
  have f5: "distinct (ids (run e reqs)) \<longleftrightarrow> run_fresh e reqs"
    by (rule run_distinct_iff)
  have f6: "inj (createPhoto_id e) \<and> client_ids_safe e (boot e) reqs \<longrightarrow>
        distinct (ids (run e reqs))"
    using run_safe_distinct[of e reqs] by blast
  show ?thesis by (intro conjI) (rule f1 f2 f3 f4 f5 f6)+
qed

theorem identifiers_stable_witness:
  "wf two_photos
   \<and> resolve two_photos (lit ''cat-1003-a3f19c'') = Some 1
   \<and> resolve (foldl (step env_ticking) two_photos
        [React (lit ''like'') (Some (lit ''b'')), ListFeed (Some 0) (Some 2)])
        (lit ''cat-1003-a3f19c'') = Some 1
   \<and> ids (snd (getOrCreatePhoto env_ticking (Some (lit ''b'')) two_photos))
       = lit ''b'' # ids two_photos
   \<and> inj (createPhoto_id env_ticking)
   \<and> client_ids_safe env_ticking (boot env_ticking)
        [React (lit ''like'') (Some (createPhoto_id env_ticking 0)),
         React (lit ''like'') (Some (lit ''b''))]
   \<and> distinct (ids (run env_ticking
        [React (lit ''like'') (Some (createPhoto_id env_ticking 0)),
         React (lit ''like'') (Some (lit ''b''))]))
   \<and> run_fresh env_ticking
        [React (lit ''like'') (Some (createPhoto_id env_ticking 0)),
         React (lit ''like'') (Some (lit ''b''))]"
proof -
  define reqs where "reqs = [React (lit ''like'') (Some (createPhoto_id env_ticking 0)),
         React (lit ''like'') (Some (lit ''b''))]"
  have r: "resolve two_photos (lit ''cat-1003-a3f19c'') = Some 1" by code_simp
  have "lit ''b'' \<noteq> createPhoto_id env_ticking t" for t
    by (simp add: createPhoto_id_def lit_def)
  then have c: "client_ids_safe env_ticking (boot env_ticking) reqs"
    using boot_first_id[of env_ticking] by (simp add: reqs_def client_id_safe_def)
  note t = identifiers_stable[where st=two_photos and p="lit ''cat-1003-a3f19c''" and r=1
      and e=env_ticking and later="[React (lit ''like'') (Some (lit ''b'')), ListFeed (Some 0) (Some 2)]"
      and reqs=reqs and photoId="Some (lit ''b'')"]
  note t1 = t[THEN conjunct1]
  note t5 = t[THEN conjunct2, THEN conjunct2, THEN conjunct2, THEN conjunct2, THEN conjunct1]
  note t6 = t[THEN conjunct2, THEN conjunct2, THEN conjunct2, THEN conjunct2, THEN conjunct2]
  from t1 two_photos_wf r have 1: "resolve (foldl (step env_ticking) two_photos
        [React (lit ''like'') (Some (lit ''b'')), ListFeed (Some 0) (Some 2)])
        (lit ''cat-1003-a3f19c'') = Some 1" by blast
  have 2: "ids (snd (getOrCreatePhoto env_ticking (Some (lit ''b'')) two_photos))
       = lit ''b'' # ids two_photos"
    by code_simp
  from t6 createPhoto_id_ticking_inj c have 3: "distinct (ids (run env_ticking reqs))" by blast
  with t5 have 4: "run_fresh env_ticking reqs" by blast
  show ?thesis
    unfolding reqs_def[symmetric]
    by (intro conjI) (rule two_photos_wf r 1 2 createPhoto_id_ticking_inj c 3 4)+
qed

end
